theory Spec2Isabelle
  imports Main "HOL-Library.Word"
begin

unbundle bit_operations_syntax

section \<open>Data model of the Bitcoin Core wallet handler\<close>

text \<open>
  The development embeds \<^verbatim>\<open>src/wallets/bitcoin_core_wallet.cpp\<close> together with
  the structures of \<^verbatim>\<open>include/wallets/bitcoin_core_wallet.h\<close>.
  A \<^verbatim>\<open>std::vector<uint8_t>\<close> is a list of 8-bit words, a \<^verbatim>\<open>std::string\<close> a
  list of characters, a \<^verbatim>\<open>std::map<std::string, V>\<close> an association list kept in
  ascending key order without duplicate keys (the order in which the container is
  iterated). Sizes and indices (\<^verbatim>\<open>size_t\<close>) are natural numbers: the buffers are
  far smaller than the range of \<^verbatim>\<open>size_t\<close>. Calls to the logger and the pacing
  sleep are left out; they touch nothing the functions below read.
\<close>

type_synonym byte = "8 word"
type_synonym bytes = "byte list"
type_synonym block = "128 word"

record MasterKey =
  encrypted_key :: bytes
  salt :: bytes
  derive_iterations :: "32 word"
  derive_method :: "32 word"
  other_params :: bytes

record CryptedKey =
  public_key :: bytes
  encrypted_private_key :: bytes

record PrivateKeyInfo =
  address :: string
  private_key_hex :: string
  private_key_wif :: string
  public_key_hex :: string
  compressed :: bool
  label :: string
  balance_satoshis :: "64 word"
  transaction_count :: int
  has_balance :: bool

record wallet =
  wallet_file :: string
  last_error :: string
  wallet_data :: bytes
  master_keys :: "(string \<times> MasterKey) list"
  crypted_keys :: "(string \<times> CryptedKey) list"
  key_labels :: "(string \<times> string) list"
  api_keys :: "(string \<times> string) list"
  api_endpoints :: "(string \<times> string) list"
  testnet_mode :: bool
  loaded :: bool

subsection \<open>The \<^verbatim>\<open>std::map\<close> container and \<^verbatim>\<open>std::to_string\<close>\<close>

text \<open>\<^verbatim>\<open>std::string\<close> comparison: lexicographic on the character codes.\<close>

fun str_less :: "string \<Rightarrow> string \<Rightarrow> bool" where
  "str_less [] [] = False"
| "str_less [] (y # ys) = True"
| "str_less (x # xs) [] = False"
| "str_less (x # xs) (y # ys) =
     ((of_char x :: nat) < of_char y \<or> (x = y \<and> str_less xs ys))"

text \<open>\<^verbatim>\<open>m[k] = v\<close>: replaces the value of an existing key, inserts a new key in order.\<close>

fun map_put :: "string \<Rightarrow> 'v \<Rightarrow> (string \<times> 'v) list \<Rightarrow> (string \<times> 'v) list" where
  "map_put k v [] = [(k, v)]"
| "map_put k v ((k', v') # m) =
     (if k = k' then (k, v) # m
      else if str_less k k' then (k, v) # (k', v') # m
      else (k', v') # map_put k v m)"

text \<open>\<^verbatim>\<open>m.find(k)\<close>.\<close>

fun map_find :: "string \<Rightarrow> (string \<times> 'v) list \<Rightarrow> 'v option" where
  "map_find k [] = None"
| "map_find k ((k', v') # m) = (if k = k' then Some v' else map_find k m)"


definition digit_char :: "nat \<Rightarrow> char" where
  "digit_char d = ''0123456789'' ! d"

fun to_string :: "nat \<Rightarrow> string" where
  "to_string n = (if n < 10 then [digit_char n] else to_string (n div 10) @ [digit_char (n mod 10)])"

declare to_string.simps [simp del]

subsection \<open>The handler object\<close>

text \<open>The constructor: default endpoints, mainnet, nothing loaded.\<close>

definition new_wallet :: "string \<Rightarrow> wallet" where
  "new_wallet file =
     \<lparr>wallet_file = file, last_error = [], wallet_data = [],
      master_keys = [], crypted_keys = [], key_labels = [], api_keys = [],
      api_endpoints =
        map_put ''blockcypher_testnet'' ''https://api.blockcypher.com/v1/btc/test3''
        (map_put ''blockstream_testnet'' ''https://blockstream.info/testnet/api''
        (map_put ''blockcypher'' ''https://api.blockcypher.com/v1/btc/main''
        (map_put ''blockchair'' ''https://api.blockchair.com/bitcoin''
        (map_put ''blockstream'' ''https://blockstream.info/api'' [])))),
      testnet_mode = False, loaded = False\<rparr>"

definition set_error :: "string \<Rightarrow> wallet \<Rightarrow> wallet" where
  "set_error msg w = w\<lparr>last_error := msg\<rparr>"

section \<open>Container parser\<close>

text \<open>\<^verbatim>\<open>v.assign(data.begin() + a, data.begin() + b)\<close>.\<close>

definition bytes_range :: "bytes \<Rightarrow> nat \<Rightarrow> nat \<Rightarrow> bytes" where
  "bytes_range data a b = take (b - a) (drop a data)"

text \<open>
  The four-byte tags: \<^verbatim>\<open>'m'\<close> is 109, \<^verbatim>\<open>'c'\<close> is 99, \<^verbatim>\<open>'k'\<close> 107,
  \<^verbatim>\<open>'e'\<close> 101 and \<^verbatim>\<open>'y'\<close> 121.
\<close>

definition mkey_at :: "bytes \<Rightarrow> nat \<Rightarrow> bool" where
  "mkey_at data i =
     (data ! i = 109 \<and> data ! (i + 1) = 107 \<and> data ! (i + 2) = 101 \<and> data ! (i + 3) = 121)"

definition ckey_at :: "bytes \<Rightarrow> nat \<Rightarrow> bool" where
  "ckey_at data i =
     (data ! i = 99 \<and> data ! (i + 1) = 107 \<and> data ! (i + 2) = 101 \<and> data ! (i + 3) = 121)"

definition master_key_from :: "bytes \<Rightarrow> nat \<Rightarrow> MasterKey" where
  "master_key_from data key_start =
     \<lparr>encrypted_key = bytes_range data (key_start + 8) (key_start + 56),
      salt = bytes_range data key_start (key_start + 8),
      derive_iterations = 25000, derive_method = 0, other_params = []\<rparr>"

definition crypted_key_from :: "bytes \<Rightarrow> nat \<Rightarrow> CryptedKey" where
  "crypted_key_from data key_start =
     \<lparr>public_key = bytes_range data key_start (key_start + 33),
      encrypted_private_key = bytes_range data (key_start + 33) (key_start + 81)\<rparr>"

type_synonym registry = "(string \<times> MasterKey) list \<times> (string \<times> CryptedKey) list"

text \<open>One iteration of the scan loop of \<^verbatim>\<open>parse_bdb_page\<close>, at index \<open>i\<close>.\<close>

definition scan_mkey :: "bytes \<Rightarrow> registry \<Rightarrow> nat \<Rightarrow> registry" where
  "scan_mkey data reg i =
     (if mkey_at data i then
        (let key_start = i + 4 in
         if key_start + 64 < length data
         then (map_put ''default'' (master_key_from data key_start) (fst reg), snd reg)
         else reg)
      else reg)"

definition scan_ckey :: "bytes \<Rightarrow> registry \<Rightarrow> nat \<Rightarrow> registry" where
  "scan_ckey data reg i =
     (if ckey_at data i then
        (let key_start = i + 4 in
         if key_start + 80 < length data
         then (fst reg, map_put (to_string (length (snd reg))) (crypted_key_from data key_start) (snd reg))
         else reg)
      else reg)"

definition scan_pos :: "bytes \<Rightarrow> registry \<Rightarrow> nat \<Rightarrow> registry" where
  "scan_pos data reg i = scan_ckey data (scan_mkey data reg i) i"

text \<open>
  \<^verbatim>\<open>parse_bdb_page(data, offset)\<close>: the result flag, the offset (passed by
  reference) and the registry. Past the first test \<open>length data\<close> is at least 1024, so
  \<^verbatim>\<open>data.size() - 32\<close> does not wrap and every index the loop reads is in range.
\<close>

definition parse_bdb_page :: "bytes \<Rightarrow> nat \<Rightarrow> registry \<Rightarrow> bool \<times> nat \<times> registry" where
  "parse_bdb_page data offset reg =
     (if offset + 1024 > length data then (False, offset, reg)
      else (True, offset + 1024,
            foldl (scan_pos data) reg [offset ..< min (offset + 1024) (length data - 32)]))"

text \<open>The \<^verbatim>\<open>while (offset < wallet_data_.size())\<close> loop of \<^verbatim>\<open>parse_bdb_file\<close>.\<close>

function parse_pages :: "bytes \<Rightarrow> nat \<Rightarrow> registry \<Rightarrow> registry" where
  "parse_pages data offset reg =
     (if offset < length data then
        (case parse_bdb_page data offset reg of
           (False, offset', reg') \<Rightarrow> reg'
         | (True, offset', reg') \<Rightarrow> parse_pages data offset' reg')
      else reg)"
  by pat_completeness auto
termination
  by (relation "measure (\<lambda>(data, offset, reg). length data - offset)")
     (auto simp: parse_bdb_page_def split: if_splits)

declare parse_pages.simps [simp del]

text \<open>
  The magic number is read through a \<^verbatim>\<open>uint32_t\<close> pointer; on a little-endian
  host the first byte is the least significant. (On a big-endian host the two accepted
  constants change roles and the same two byte sequences are accepted.)
\<close>

definition read_u32 :: "bytes \<Rightarrow> 32 word" where
  "read_u32 data =
     ucast (data ! 0) OR push_bit 8 (ucast (data ! 1)) OR
     push_bit 16 (ucast (data ! 2)) OR push_bit 24 (ucast (data ! 3))"

definition magic_ok :: "bytes \<Rightarrow> bool" where
  "magic_ok data = (read_u32 data = 0x00061561 \<or> read_u32 data = 0x61150600)"

text \<open>\<^verbatim>\<open>sizeof(BDBHeader)\<close> is 16: four \<^verbatim>\<open>uint32_t\<close> fields.\<close>

definition parse_bdb_file :: "wallet \<Rightarrow> bool \<times> wallet" where
  "parse_bdb_file w =
     (if length (wallet_data w) < 16
      then (False, set_error ''Wallet file too small to contain valid Berkeley DB header'' w)
      else if \<not> magic_ok (wallet_data w)
      then (False, set_error ''Invalid Berkeley DB magic number'' w)
      else
        (let reg = parse_pages (wallet_data w) 0 (master_keys w, crypted_keys w);
             w' = w\<lparr>master_keys := fst reg, crypted_keys := snd reg\<rparr>
         in (master_keys w' \<noteq> [] \<and> crypted_keys w' \<noteq> [], w')))"

text \<open>
  \<^verbatim>\<open>verify_file_access\<close> and \<^verbatim>\<open>read_file\<close> belong to the base class, whose
  implementation reads the file system; they are parameters here.
\<close>

record file_system =
  verify_file_access :: "string \<Rightarrow> bool"
  read_file :: "string \<Rightarrow> bytes"

definition load :: "file_system \<Rightarrow> wallet \<Rightarrow> bool \<times> wallet" where
  "load fs w =
     (if loaded w then (True, w)
      else if \<not> verify_file_access fs (wallet_file w)
      then (False, set_error (''Cannot access wallet file: '' @ wallet_file w) w)
      else
        (let w1 = w\<lparr>wallet_data := read_file fs (wallet_file w)\<rparr> in
         if wallet_data w1 = []
         then (False, set_error ''Failed to read wallet file or file is empty'' w1)
         else
           (case parse_bdb_file w1 of
              (False, w2) \<Rightarrow> (False, set_error ''Failed to parse wallet.dat file - invalid format'' w2)
            | (True, w2) \<Rightarrow> (True, w2\<lparr>loaded := True\<rparr>))))"

section \<open>Key derivation and decryption\<close>

text \<open>
  The cryptographic primitives come from OpenSSL and are parameters of the model: the
  key-derivation function (called with the SHA-512 digest and a 32-byte output), the
  AES-256 block decryption, the two hash functions and the secp256k1 point
  multiplication with its uncompressed serialisation (the empty vector stands for any
  failure inside \<^verbatim>\<open>private_key_to_public_key\<close>). A primitive that fills a buffer of
  fixed size returns a word of that size.
\<close>

record openssl =
  PKCS5_PBKDF2_HMAC :: "string \<Rightarrow> bytes \<Rightarrow> 32 word \<Rightarrow> 256 word option"
  AES_256_decrypt :: "bytes \<Rightarrow> block \<Rightarrow> block"
  SHA256 :: "bytes \<Rightarrow> 256 word"
  RIPEMD160 :: "bytes \<Rightarrow> 160 word"
  EC_POINT_mul_oct :: "bytes \<Rightarrow> bytes"

text \<open>The \<open>n\<close> bytes of a word, most significant first, and back.\<close>

definition word_bytes :: "nat \<Rightarrow> 'a::len word \<Rightarrow> bytes" where
  "word_bytes n w = map (\<lambda>i. ucast (drop_bit (8 * (n - 1 - i)) w)) [0 ..< n]"

definition block_of_bytes :: "bytes \<Rightarrow> block" where
  "block_of_bytes bs = foldl (\<lambda>a b. push_bit 8 a OR ucast b) 0 bs"

definition derive_key :: "openssl \<Rightarrow> string \<Rightarrow> bytes \<Rightarrow> 32 word \<Rightarrow> bytes" where
  "derive_key lib password slt iterations =
     (case PKCS5_PBKDF2_HMAC lib password slt iterations of
        None \<Rightarrow> []
      | Some k \<Rightarrow> word_bytes 32 k)"

subsection \<open>The cipher context\<close>

text \<open>
  The three \<^verbatim>\<open>EVP_Decrypt\<close> calls for \<^verbatim>\<open>EVP_aes_256_cbc()\<close> with padding enabled
  (the default), as OpenSSL documents them: the update call decrypts the complete
  16-byte blocks of its input in CBC mode, keeps an incomplete tail in the buffer and
  holds the last plaintext block back when the input ended on a block boundary; the
  final call fails on a buffered tail or when no block is held, and otherwise strips
  the padding of the held block after checking it. A negative input length is refused
  by the update call.
\<close>

record evp_ctx =
  ctx_key :: bytes
  ctx_iv :: block
  ctx_buf :: bytes
  ctx_final :: block
  ctx_final_used :: bool

fun chop16 :: "bytes \<Rightarrow> bytes list" where
  "chop16 bs = (if length bs < 16 then [] else take 16 bs # chop16 (drop 16 bs))"

declare chop16.simps [simp del]

fun cbc_decrypt :: "(block \<Rightarrow> block) \<Rightarrow> block \<Rightarrow> block list \<Rightarrow> block list" where
  "cbc_decrypt d prev [] = []"
| "cbc_decrypt d prev (c # cs) = (d c XOR prev) # cbc_decrypt d c cs"

definition EVP_DecryptInit_ex :: "bytes \<Rightarrow> bytes \<Rightarrow> evp_ctx" where
  "EVP_DecryptInit_ex key iv =
     \<lparr>ctx_key = key, ctx_iv = block_of_bytes (take 16 iv), ctx_buf = [],
      ctx_final = 0, ctx_final_used = False\<rparr>"

definition EVP_DecryptUpdate :: "openssl \<Rightarrow> evp_ctx \<Rightarrow> bytes \<Rightarrow> int \<Rightarrow> (evp_ctx \<times> bytes) option" where
  "EVP_DecryptUpdate lib ctx inp inl =
     (if inl < 0 then None
      else if inl = 0 then Some (ctx, [])
      else
        (let data = ctx_buf ctx @ take (nat inl) inp;
             n = length data div 16;
             cblocks = map block_of_bytes (chop16 (take (16 * n) data));
             plain = cbc_decrypt (AES_256_decrypt lib (ctx_key ctx)) (ctx_iv ctx) cblocks;
             rest = drop (16 * n) data;
             held = (if ctx_final_used ctx then [ctx_final ctx] else []);
             ctx' = ctx\<lparr>ctx_iv := last (ctx_iv ctx # cblocks), ctx_buf := rest\<rparr>
         in if rest = []
            then Some (ctx'\<lparr>ctx_final := last plain, ctx_final_used := True\<rparr>,
                       concat (map (word_bytes 16) (held @ butlast plain)))
            else Some (ctx'\<lparr>ctx_final_used := False\<rparr>,
                       concat (map (word_bytes 16) (held @ plain)))))"

definition EVP_DecryptFinal_ex :: "evp_ctx \<Rightarrow> bytes option" where
  "EVP_DecryptFinal_ex ctx =
     (if ctx_buf ctx \<noteq> [] then None
      else if \<not> ctx_final_used ctx then None
      else
        (let fb = word_bytes 16 (ctx_final ctx);
             n = unat (fb ! 15)
         in if n = 0 \<or> n > 16 then None
            else if list_all (\<lambda>b. b = fb ! 15) (drop (16 - n) fb)
            then Some (take (16 - n) fb)
            else None))"

subsection \<open>Master key and private keys\<close>

text \<open>
  Both functions return the decrypted bytes for \<^verbatim>\<open>true\<close> and \<open>None\<close> for
  \<^verbatim>\<open>false\<close>; the callers read the output vector only after \<^verbatim>\<open>true\<close>. The length
  handed to the update call is \<^verbatim>\<open>size() - 16\<close> converted to \<^verbatim>\<open>int\<close>, which is
  negative for a blob shorter than 16 bytes.
\<close>

definition decrypt_master_key :: "openssl \<Rightarrow> string \<Rightarrow> MasterKey \<Rightarrow> bytes option" where
  "decrypt_master_key lib password mk =
     (let derived_key = derive_key lib password (salt mk) (derive_iterations mk) in
      if length derived_key \<noteq> 32 then None
      else
        (let ctx = EVP_DecryptInit_ex derived_key (encrypted_key mk) in
         case EVP_DecryptUpdate lib ctx (drop 16 (encrypted_key mk))
                (int (length (encrypted_key mk)) - 16) of
           None \<Rightarrow> None
         | Some (ctx', out) \<Rightarrow>
             (case EVP_DecryptFinal_ex ctx' of
                None \<Rightarrow> None
              | Some fin \<Rightarrow> Some (out @ fin))))"

definition decrypt_private_key :: "openssl \<Rightarrow> bytes \<Rightarrow> CryptedKey \<Rightarrow> bytes option" where
  "decrypt_private_key lib master_key ck =
     (if length master_key \<noteq> 32 \<or> length (encrypted_private_key ck) < 16 then None
      else
        (let iv = encrypted_private_key ck;
             encrypted_data = drop 16 (encrypted_private_key ck);
             encrypted_len = int (length (encrypted_private_key ck)) - 16;
             ctx = EVP_DecryptInit_ex master_key iv
         in case EVP_DecryptUpdate lib ctx encrypted_data encrypted_len of
              None \<Rightarrow> None
            | Some (ctx', out) \<Rightarrow>
                (case EVP_DecryptFinal_ex ctx' of
                   None \<Rightarrow> None
                 | Some fin \<Rightarrow> Some (out @ fin))))"

text \<open>The loop of \<^verbatim>\<open>test_password\<close> and \<^verbatim>\<open>extract_private_keys\<close> over the master keys.\<close>

fun first_master_key :: "openssl \<Rightarrow> string \<Rightarrow> (string \<times> MasterKey) list \<Rightarrow> bytes option" where
  "first_master_key lib password [] = None"
| "first_master_key lib password ((k, mk) # rest) =
     (case decrypt_master_key lib password mk of
        Some key \<Rightarrow> Some key
      | None \<Rightarrow> first_master_key lib password rest)"

definition test_password :: "file_system \<Rightarrow> openssl \<Rightarrow> string \<Rightarrow> wallet \<Rightarrow> bool \<times> wallet" where
  "test_password fs lib password w =
     (let (ok, w1) = (if loaded w then (True, w) else load fs w) in
      if \<not> ok then (False, w1)
      else if master_keys w1 = [] then (False, set_error ''No master keys found in wallet'' w1)
      else (first_master_key lib password (master_keys w1) \<noteq> None, w1))"

section \<open>Key formats\<close>

text \<open>\<^verbatim>\<open>std::hex << std::setw(2) << std::setfill('0') << (int)byte\<close>, byte after byte.\<close>

definition hex_digit :: "nat \<Rightarrow> char" where
  "hex_digit n = ''0123456789abcdef'' ! n"

definition hex_byte :: "byte \<Rightarrow> string" where
  "hex_byte b = [hex_digit (unat b div 16), hex_digit (unat b mod 16)]"

definition to_hex :: "bytes \<Rightarrow> string" where
  "to_hex bs = concat (map hex_byte bs)"

subsection \<open>Base58\<close>

definition base58_alphabet :: string where
  "base58_alphabet = ''123456789ABCDEFGHJKLMNPQRSTUVWXYZabcdefghijkmnopqrstuvwxyz''"

text \<open>
  The inner \<^verbatim>\<open>for\<close> loop over the digits (least significant first) with its carry,
  and the \<^verbatim>\<open>while (carry > 0)\<close> loop that appends digits. The digits stay below 58
  and the carry below \<open>2\<^sup>1\<^sup>4\<close>, so neither \<^verbatim>\<open>uint8_t\<close> nor \<^verbatim>\<open>int\<close> overflows.
\<close>

fun b58_mul_add :: "nat \<Rightarrow> nat list \<Rightarrow> nat list \<times> nat" where
  "b58_mul_add carry [] = ([], carry)"
| "b58_mul_add carry (d # ds) =
     (let c = carry + d * 256;
          (ds', c') = b58_mul_add (c div 58) ds
      in ((c mod 58) # ds', c'))"

fun b58_push_carry :: "nat \<Rightarrow> nat list" where
  "b58_push_carry carry =
     (if carry > 0 then (carry mod 58) # b58_push_carry (carry div 58) else [])"

declare b58_push_carry.simps [simp del]

definition b58_step :: "nat list \<Rightarrow> byte \<Rightarrow> nat list" where
  "b58_step digits b =
     (let (digits', carry) = b58_mul_add (unat b) digits
      in digits' @ b58_push_carry carry)"

definition base58_encode :: "bytes \<Rightarrow> string" where
  "base58_encode data =
     (let leading_zeros = length (takeWhile (\<lambda>b. b = 0) data);
          digits = foldl b58_step [] (drop leading_zeros data)
      in replicate leading_zeros (CHR ''1'') @ map (\<lambda>d. base58_alphabet ! d) (rev digits))"

subsection \<open>WIF, public key and address\<close>

definition sha256_bytes :: "openssl \<Rightarrow> bytes \<Rightarrow> bytes" where
  "sha256_bytes lib data = word_bytes 32 (SHA256 lib data)"

definition private_key_to_wif :: "openssl \<Rightarrow> bool \<Rightarrow> bytes \<Rightarrow> bool \<Rightarrow> string" where
  "private_key_to_wif lib testnet private_key compr =
     (if length private_key \<noteq> 32 then []
      else
        (let wif_data = [if testnet then 0xEF else 0x80] @ private_key @ (if compr then [0x01] else []);
             hash1 = sha256_bytes lib wif_data;
             hash2 = sha256_bytes lib hash1
         in base58_encode (wif_data @ take 4 hash2)))"

definition private_key_to_public_key :: "openssl \<Rightarrow> bytes \<Rightarrow> bytes" where
  "private_key_to_public_key lib private_key =
     (if length private_key \<noteq> 32 then [] else EC_POINT_mul_oct lib private_key)"

definition public_key_to_address :: "openssl \<Rightarrow> bool \<Rightarrow> bytes \<Rightarrow> bool \<Rightarrow> string" where
  "public_key_to_address lib testnet pubkey compr =
     (if pubkey = [] then []
      else
        (let pub_key = (if compr \<and> length pubkey = 65
                        then (take 33 pubkey)[0 := (if unat (pubkey ! 64) mod 2 \<noteq> 0 then 0x03 else 0x02)]
                        else pubkey);
             sha256_hash = sha256_bytes lib pub_key;
             ripemd160_hash = word_bytes 20 (RIPEMD160 lib sha256_hash);
             address_data = (if testnet then 0x6F else 0x00) # ripemd160_hash;
             hash1 = sha256_bytes lib address_data;
             hash2 = sha256_bytes lib hash1
         in base58_encode (address_data @ take 4 hash2)))"

section \<open>Private-key extraction\<close>

text \<open>The body of the loop over the encrypted keys: the entries one record appends.\<close>

definition key_entries :: "openssl \<Rightarrow> wallet \<Rightarrow> bytes \<Rightarrow> CryptedKey \<Rightarrow> PrivateKeyInfo list" where
  "key_entries lib w master_key ck =
     (case decrypt_private_key lib master_key ck of
        None \<Rightarrow> []
      | Some private_key_bytes \<Rightarrow>
          (let pubkey = private_key_to_public_key lib private_key_bytes;
               compressed_addr = public_key_to_address lib (testnet_mode w) pubkey True;
               uncompressed_addr = public_key_to_address lib (testnet_mode w) pubkey False;
               key_info =
                 \<lparr>address = compressed_addr,
                  private_key_hex = to_hex private_key_bytes,
                  private_key_wif = private_key_to_wif lib (testnet_mode w) private_key_bytes True,
                  public_key_hex = to_hex pubkey,
                  compressed = True,
                  label = (case map_find compressed_addr (key_labels w) of
                             Some l \<Rightarrow> l | None \<Rightarrow> []),
                  balance_satoshis = 0, transaction_count = 0, has_balance = False\<rparr>
           in if compressed_addr \<noteq> uncompressed_addr
              then [key_info,
                    key_info\<lparr>address := uncompressed_addr, compressed := False,
                      private_key_wif :=
                        private_key_to_wif lib (testnet_mode w) private_key_bytes False,
                      label := (case map_find uncompressed_addr (key_labels w) of
                                  Some l \<Rightarrow> l | None \<Rightarrow> label key_info)\<rparr>]
              else [key_info]))"

fun extract_loop ::
  "openssl \<Rightarrow> wallet \<Rightarrow> bytes \<Rightarrow> (string \<times> CryptedKey) list \<Rightarrow> PrivateKeyInfo list \<Rightarrow> PrivateKeyInfo list"
where
  "extract_loop lib w master_key [] private_keys = private_keys"
| "extract_loop lib w master_key ((k, ck) # rest) private_keys =
     extract_loop lib w master_key rest (private_keys @ key_entries lib w master_key ck)"

definition extract_private_keys ::
  "file_system \<Rightarrow> openssl \<Rightarrow> string \<Rightarrow> wallet \<Rightarrow> PrivateKeyInfo list \<times> wallet"
where
  "extract_private_keys fs lib password w =
     (let (ok, w1) = (if loaded w then (True, w) else load fs w) in
      if \<not> ok then ([], w1)
      else
        (case first_master_key lib password (master_keys w1) of
           None \<Rightarrow> ([], set_error ''Failed to decrypt master key with provided password'' w1)
         | Some master_key \<Rightarrow> (extract_loop lib w1 master_key (crypted_keys w1) [], w1)))"

section \<open>Balance verification\<close>


















section \<open>Reference notions the properties are stated with\<close>

subsection \<open>Numbers in base 58 and base 256\<close>

text \<open>The value of a digit vector (least significant digit first) in base 58.\<close>

fun le58 :: "nat list \<Rightarrow> nat" where
  "le58 [] = 0"
| "le58 (d # ds) = d + 58 * le58 ds"

text \<open>The digit loop's invariant: digits below 58, most significant digit not zero.\<close>

definition digits_ok :: "nat list \<Rightarrow> bool" where
  "digits_ok ds = (list_all (\<lambda>d. d < 58) ds \<and> (ds = [] \<or> last ds \<noteq> 0))"

text \<open>A byte vector read as a big-endian number in base 256.\<close>

definition be256 :: "bytes \<Rightarrow> nat" where
  "be256 bs = foldl (\<lambda>a b. a * 256 + unat b) 0 bs"

text \<open>A base-58 string read as a big-endian number: each character counts its
  position in the alphabet.\<close>

definition b58_index :: "char \<Rightarrow> nat" where
  "b58_index c = length (takeWhile (\<lambda>x. x \<noteq> c) base58_alphabet)"

definition b58_value :: "string \<Rightarrow> nat" where
  "b58_value s = foldl (\<lambda>a c. a * 58 + b58_index c) 0 s"

subsection \<open>Decoding\<close>

text \<open>The shortest big-endian byte vector of a number (empty for 0).\<close>

fun be_bytes :: "nat \<Rightarrow> bytes" where
  "be_bytes n = (if n = 0 then [] else be_bytes (n div 256) @ [of_nat (n mod 256)])"

declare be_bytes.simps [simp del]

text \<open>
  Modelled from the spec: the repository encodes base58, base58check and WIF but has no
  decoder. \<open>base58_decode\<close> is standard base58 decoding (each leading \<^verbatim>\<open>'1'\<close> is a
  zero byte, the rest is a big-endian base-58 number); \<open>base58check_decode\<close> rejects a
  payload whose trailing four bytes are not the first four bytes of the double SHA-256
  of the rest; \<open>wif_decode\<close> splits the payload into the version byte, the 32 key
  bytes and the compression marker \<^verbatim>\<open>0x01\<close>.
\<close>

definition base58_decode :: "string \<Rightarrow> bytes option" where
  "base58_decode s =
     (if list_all (\<lambda>c. c \<in> set base58_alphabet) s
      then (let z = length (takeWhile (\<lambda>c. c = CHR ''1'') s)
            in Some (replicate z 0 @ be_bytes (b58_value (drop z s))))
      else None)"

definition base58check_decode :: "openssl \<Rightarrow> string \<Rightarrow> bytes option" where
  "base58check_decode lib s =
     (case base58_decode s of
        None \<Rightarrow> None
      | Some bs \<Rightarrow>
          (if length bs < 4 then None
           else
             (let payload = take (length bs - 4) bs;
                  checksum = drop (length bs - 4) bs
              in if take 4 (sha256_bytes lib (sha256_bytes lib payload)) = checksum
                 then Some payload else None)))"

definition wif_decode :: "openssl \<Rightarrow> string \<Rightarrow> (byte \<times> bytes \<times> bool) option" where
  "wif_decode lib s =
     (case base58check_decode lib s of
        None \<Rightarrow> None
      | Some payload \<Rightarrow>
          (if length payload = 33 then Some (hd payload, tl payload, False)
           else if length payload = 34 \<and> last payload = 0x01
           then Some (hd payload, butlast (tl payload), True)
           else None))"

subsection \<open>CBC decryption with padding removal\<close>

text \<open>
  PKCS#7 padding removal: the last byte \<open>n\<close> is between 1 and 16 and the last \<open>n\<close>
  bytes all equal it. \<open>aes_256_cbc_decrypt\<close> is the decryption of a whole ciphertext
  under a key and an initialisation vector: the ciphertext is a positive number of
  complete blocks and the padding of the plaintext is valid.
\<close>

definition pkcs7_unpad :: "bytes \<Rightarrow> bytes option" where
  "pkcs7_unpad p =
     (if p = [] then None
      else
        (let n = unat (last p) in
         if n = 0 \<or> n > 16 \<or> n > length p then None
         else if drop (length p - n) p = replicate n (last p)
         then Some (take (length p - n) p)
         else None))"

definition aes_256_cbc_decrypt :: "openssl \<Rightarrow> bytes \<Rightarrow> bytes \<Rightarrow> bytes \<Rightarrow> bytes option" where
  "aes_256_cbc_decrypt lib key iv ct =
     (if ct = [] \<or> length ct mod 16 \<noteq> 0 then None
      else pkcs7_unpad
             (concat (map (word_bytes 16)
                (cbc_decrypt (AES_256_decrypt lib key) (block_of_bytes iv)
                   (map block_of_bytes (chop16 ct))))))"

subsection \<open>The positions the scan visits\<close>

text \<open>
  The scan visits the indices below \<open>scan_limit\<close>: whole 1024-byte windows only, and
  never the last 32 bytes. \<open>mkey_positions\<close> are the visited indices at which a
  master-key tag stands with enough room behind it, in scan order.
\<close>

definition scan_limit :: "bytes \<Rightarrow> nat" where
  "scan_limit data = min (1024 * (length data div 1024)) (length data - 32)"

definition mkey_positions :: "bytes \<Rightarrow> nat list" where
  "mkey_positions data =
     filter (\<lambda>i. mkey_at data i \<and> i + 68 < length data) [0 ..< scan_limit data]"

definition ckey_positions :: "bytes \<Rightarrow> nat list" where
  "ckey_positions data =
     filter (\<lambda>i. ckey_at data i \<and> i + 84 < length data) [0 ..< scan_limit data]"

subsection \<open>Ordered fallback\<close>





subsection \<open>The master-key registry\<close>

text \<open>A registry with no key other than \<^verbatim>\<open>"default"\<close>, hence with at most one entry.\<close>

definition default_only :: "(string \<times> 'v) list \<Rightarrow> bool" where
  "default_only m = (map fst m = [] \<or> map fst m = [''default''])"

section \<open>Example instances\<close>

text \<open>
  An instance of the primitives small enough to compute with: the key derivation
  yields the zero key for the password \<^verbatim>\<open>correct\<close> and the all-ones key for any
  other, the block decryption is the exclusive or with the first 16 key bytes, the
  hashes count the bytes of their input and the public key repeats the private key
  after the marker byte 4.
\<close>

definition demo_lib :: openssl where
  "demo_lib =
     \<lparr>PKCS5_PBKDF2_HMAC = (\<lambda>password slt iterations. if password = ''correct'' then Some 0 else Some (- 1)),
      AES_256_decrypt = (\<lambda>key c. c XOR block_of_bytes (take 16 key)),
      SHA256 = (\<lambda>data. of_nat (length data)),
      RIPEMD160 = (\<lambda>data. of_nat (length data)),
      EC_POINT_mul_oct = (\<lambda>private_key. 4 # private_key @ private_key)\<rparr>"

text \<open>A file system that holds the same image under every path.\<close>

definition const_fs :: "bytes \<Rightarrow> file_system" where
  "const_fs img = \<lparr>verify_file_access = (\<lambda>path. True), read_file = (\<lambda>path. img)\<rparr>"

text \<open>
  A 1024-byte image: the magic number, a master-key tag at offset 16 (salt of 9s,
  blob of 7s), a second master-key tag at offset 80 (salt 1 to 8, blob of 32 zero
  bytes and 16 bytes \<^verbatim>\<open>0x10\<close>) and an encrypted-key tag at offset 144 (public key of
  5s, the same blob).
\<close>

definition demo_image :: bytes where
  "demo_image =
     [0x61, 0x15, 0x06, 0x00] @ replicate 12 0 @
     [109, 107, 101, 121] @ replicate 8 9 @ replicate 48 7 @ replicate 4 0 @
     [109, 107, 101, 121] @ [1, 2, 3, 4, 5, 6, 7, 8] @ replicate 32 0 @ replicate 16 0x10 @
     replicate 4 0 @
     [99, 107, 101, 121] @ replicate 33 5 @ replicate 32 0 @ replicate 16 0x10 @
     replicate 795 0"

text \<open>A 1024-byte image with the magic number and one master-key tag, and no other tag.\<close>

definition mkey_only_image :: bytes where
  "mkey_only_image =
     [0x61, 0x15, 0x06, 0x00] @ replicate 12 0 @ [109, 107, 101, 121] @ replicate 1004 0"

definition demo_master_key :: MasterKey where
  "demo_master_key =
     \<lparr>encrypted_key = replicate 32 0 @ replicate 16 0x10, salt = [1, 2, 3, 4, 5, 6, 7, 8],
      derive_iterations = 25000, derive_method = 0, other_params = []\<rparr>"

definition demo_crypted_key :: CryptedKey where
  "demo_crypted_key =
     \<lparr>public_key = replicate 33 5, encrypted_private_key = replicate 32 0 @ replicate 16 0x10\<rparr>"

text \<open>The handler after loading \<open>demo_image\<close>.\<close>

definition demo_wallet :: wallet where
  "demo_wallet =
     (new_wallet ''wallet.dat'')
       \<lparr>wallet_data := demo_image,
        master_keys := [(''default'', demo_master_key)],
        crypted_keys := [(''0'', demo_crypted_key)],
        loaded := True\<rparr>"

text \<open>
  Two encrypted-key records: one whose blob (16 zero bytes, then three blocks) decrypts
  under the zero key to 32 zero bytes, and one whose blob has five bytes.
\<close>

definition demo_key_record :: CryptedKey where
  "demo_key_record =
     \<lparr>public_key = replicate 33 5, encrypted_private_key = replicate 48 0 @ replicate 16 0x10\<rparr>"

definition demo_short_record :: CryptedKey where
  "demo_short_record = \<lparr>public_key = replicate 33 5, encrypted_private_key = [1, 2, 3, 4, 5]\<rparr>"








section \<open>Base58 and WIF\<close>

lemma le58_append: "le58 (xs @ ys) = le58 xs + 58 ^ length xs * le58 ys"
  by (induction xs) (auto simp: algebra_simps)

lemma b58_mul_add_length: "b58_mul_add c ds = (ds', c') \<Longrightarrow> length ds' = length ds"
  by (induction ds arbitrary: c ds' c') (auto simp: Let_def split: prod.splits)

lemma b58_mul_add_digits: "b58_mul_add c ds = (ds', c') \<Longrightarrow> \<forall>d \<in> set ds'. d < 58"
  by (induction ds arbitrary: c ds' c') (auto simp: Let_def split: prod.splits)

lemma b58_mul_add_value:
  "b58_mul_add c ds = (ds', c') \<Longrightarrow> le58 ds' + 58 ^ length ds * c' = c + 256 * le58 ds"
proof (induction ds arbitrary: c ds' c')
  case Nil
  then show ?case by simp
next
  case (Cons d ds)
  let ?c = "c + d * 256"
  obtain es e where r: "b58_mul_add (?c div 58) ds = (es, e)" by fastforce
  from Cons.prems r have ds': "ds' = (?c mod 58) # es" and c': "c' = e"
    by (simp_all add: Let_def)
  have IH: "le58 es + 58 ^ length ds * e = ?c div 58 + 256 * le58 ds"
    by (rule Cons.IH [OF r])
  have "le58 ds' + 58 ^ length (d # ds) * c' = ?c mod 58 + 58 * (le58 es + 58 ^ length ds * e)"
    by (simp add: ds' c' algebra_simps)
  also have "\<dots> = ?c mod 58 + 58 * (?c div 58 + 256 * le58 ds)"
    by (simp only: IH)
  also have "\<dots> = (?c mod 58 + 58 * (?c div 58)) + 58 * 256 * le58 ds"
    by (simp only: distrib_left mult.assoc add.assoc)
  also have "\<dots> = ?c + 58 * 256 * le58 ds"
    by simp
  also have "\<dots> = c + 256 * le58 (d # ds)"
    by simp
  finally show ?case .
qed

lemma b58_push_carry_value: "le58 (b58_push_carry c) = c"
proof (induction c rule: b58_push_carry.induct)
  case (1 c)
  show ?case
  proof (cases "c > 0")
    case True
    then show ?thesis using 1 by (subst b58_push_carry.simps) simp
  next
    case False
    then show ?thesis by (subst b58_push_carry.simps) simp
  qed
qed

lemma b58_push_carry_digits: "\<forall>d \<in> set (b58_push_carry c). d < 58"
proof (induction c rule: b58_push_carry.induct)
  case (1 c)
  show ?case
  proof (cases "c > 0")
    case True
    then show ?thesis using 1 by (subst b58_push_carry.simps) simp
  next
    case False
    then show ?thesis by (subst b58_push_carry.simps) simp
  qed
qed

lemma b58_push_carry_last:
  "c > 0 \<Longrightarrow> b58_push_carry c \<noteq> [] \<and> last (b58_push_carry c) \<noteq> 0"
proof (induction c rule: b58_push_carry.induct)
  case (1 c)
  show ?case
  proof (cases "c div 58 > 0")
    case True
    with 1 have "b58_push_carry (c div 58) \<noteq> [] \<and> last (b58_push_carry (c div 58)) \<noteq> 0"
      by simp
    then show ?thesis using 1(2) by (subst (1 2) b58_push_carry.simps) simp
  next
    case False
    then have "c < 58" by simp
    moreover have "b58_push_carry (c div 58) = []"
      using False by (subst b58_push_carry.simps) simp
    ultimately show ?thesis using 1(2) by (subst (1 2) b58_push_carry.simps) simp
  qed
qed

lemma b58_push_carry_0: "b58_push_carry 0 = []"
  by (subst b58_push_carry.simps) simp

lemma digits_ok_iff:
  "digits_ok ds = ((\<forall>d \<in> set ds. d < 58) \<and> (ds = [] \<or> last ds \<noteq> 0))"
  by (simp add: digits_ok_def list_all_iff)

lemma le58_upper: "\<forall>d \<in> set ds. d < 58 \<Longrightarrow> le58 ds < 58 ^ length ds"
proof (induction ds)
  case Nil
  show ?case by simp
next
  case (Cons d ds)
  then have "d \<le> 57" and "le58 ds + 1 \<le> 58 ^ length ds" by auto
  then have "d + 58 * (le58 ds + 1) \<le> 57 + 58 * 58 ^ length ds"
    by (meson add_mono mult_le_mono2)
  then show ?case by simp
qed

lemma le58_lower: "ds \<noteq> [] \<Longrightarrow> last ds \<noteq> 0 \<Longrightarrow> 58 ^ (length ds - 1) \<le> le58 ds"
proof (induction ds)
  case Nil
  then show ?case by simp
next
  case (Cons d ds)
  show ?case
  proof (cases "ds = []")
    case True
    with Cons.prems show ?thesis by simp
  next
    case False
    with Cons have "58 ^ (length ds - 1) \<le> le58 ds" by simp
    then have "58 * 58 ^ (length ds - 1) \<le> 58 * le58 ds" by simp
    moreover have "58 * 58 ^ (length ds - 1) = (58::nat) ^ length ds"
      using False by (cases ds) simp_all
    ultimately show ?thesis by simp
  qed
qed

lemma b58_step_value: "le58 (b58_step ds b) = unat b + 256 * le58 ds"
proof -
  obtain ds' c' where r: "b58_mul_add (unat b) ds = (ds', c')" by fastforce
  show ?thesis
    using b58_mul_add_value [OF r] b58_mul_add_length [OF r]
    by (simp add: b58_step_def r le58_append b58_push_carry_value)
qed

lemma b58_step_ok:
  assumes "digits_ok ds"
  shows "digits_ok (b58_step ds b)"
proof -
  obtain ds' c' where r: "b58_mul_add (unat b) ds = (ds', c')" by fastforce
  have len: "length ds' = length ds" by (rule b58_mul_add_length [OF r])
  have dig: "\<forall>d \<in> set ds'. d < 58" by (rule b58_mul_add_digits [OF r])
  have val: "le58 ds' + 58 ^ length ds * c' = unat b + 256 * le58 ds"
    by (rule b58_mul_add_value [OF r])
  have step: "b58_step ds b = ds' @ b58_push_carry c'" by (simp add: b58_step_def r)
  have all: "\<forall>d \<in> set (b58_step ds b). d < 58"
    using dig b58_push_carry_digits [of c'] by (auto simp: step)
  have "b58_step ds b = [] \<or> last (b58_step ds b) \<noteq> 0"
  proof (cases "c' > 0")
    case True
    then show ?thesis using b58_push_carry_last [of c'] by (simp add: step)
  next
    case False
    then have c0: "c' = 0" by simp
    show ?thesis
    proof (cases "ds = []")
      case True
      then have "ds' = []" using len by simp
      then have "b58_step ds b = []" unfolding step by (simp add: c0 b58_push_carry_0)
      then show ?thesis by simp
    next
      case False
      then have "last ds \<noteq> 0" using assms by (simp add: digits_ok_iff)
      then have lo: "58 ^ (length ds - 1) \<le> le58 ds" by (rule le58_lower [OF False])
      have ne: "ds' \<noteq> []" using False len by auto
      have "last ds' \<noteq> 0"
      proof
        assume z: "last ds' = 0"
        have "ds' = butlast ds' @ [0]" using ne z by (metis append_butlast_last_id)
        then have "le58 ds' = le58 (butlast ds')"
          by (metis le58_append le58.simps add_0 mult_0_right add.right_neutral mult_zero_right)
        moreover have "le58 (butlast ds') < 58 ^ length (butlast ds')"
          by (rule le58_upper) (use dig in \<open>auto dest: in_set_butlastD\<close>)
        ultimately have "le58 ds' < 58 ^ (length ds - 1)" using len by simp
        moreover have "le58 ds' = unat b + 256 * le58 ds" using val c0 by simp
        ultimately show False using lo by linarith
      qed
      then show ?thesis unfolding step using ne by (simp add: c0 b58_push_carry_0)
    qed
  qed
  with all show ?thesis by (simp add: digits_ok_iff)
qed

lemma foldl_b58_step_value:
  "le58 (foldl b58_step ds bs) = foldl (\<lambda>a b. a * 256 + unat b) (le58 ds) bs"
  by (induction bs arbitrary: ds) (simp_all add: b58_step_value add.commute mult.commute)

lemma foldl_b58_step_ok: "digits_ok ds \<Longrightarrow> digits_ok (foldl b58_step ds bs)"
  by (induction bs arbitrary: ds) (simp_all add: b58_step_ok)

lemma b58_digits_value: "le58 (foldl b58_step [] bs) = be256 bs"
  by (simp add: foldl_b58_step_value be256_def)

lemma b58_digits_ok: "digits_ok (foldl b58_step [] bs)"
  by (rule foldl_b58_step_ok) (simp add: digits_ok_iff)


lemma base58_alphabet_length: "length base58_alphabet = 58"
  by (simp add: base58_alphabet_def)

lemma base58_alphabet_distinct: "distinct base58_alphabet"
  by (simp add: base58_alphabet_def)

lemma index_nth_distinct:
  "distinct xs \<Longrightarrow> i < length xs \<Longrightarrow> length (takeWhile (\<lambda>x. x \<noteq> xs ! i) xs) = i"
proof (induction xs arbitrary: i)
  case Nil
  then show ?case by simp
next
  case (Cons x xs)
  show ?case
  proof (cases i)
    case 0
    then show ?thesis by simp
  next
    case (Suc j)
    with Cons.prems have "xs ! j \<in> set xs" and "x \<notin> set xs" by auto
    then have "x \<noteq> xs ! j" by auto
    with Cons Suc show ?thesis by simp
  qed
qed

lemma b58_index_nth: "d < 58 \<Longrightarrow> b58_index (base58_alphabet ! d) = d"
  unfolding b58_index_def
  by (rule index_nth_distinct) (simp_all add: base58_alphabet_distinct base58_alphabet_length)

lemma base58_alphabet_one: "d < 58 \<Longrightarrow> (base58_alphabet ! d = CHR ''1'') = (d = 0)"
proof -
  assume d: "d < 58"
  have z: "base58_alphabet ! 0 = CHR ''1''" by (simp add: base58_alphabet_def)
  have "base58_alphabet ! d = base58_alphabet ! 0 \<longleftrightarrow> d = 0"
    using d by (simp add: nth_eq_iff_index_eq base58_alphabet_distinct base58_alphabet_length)
  with z show ?thesis by simp
qed

lemma b58_value_digits:
  "\<forall>d \<in> set ds. d < 58 \<Longrightarrow> b58_value (map (\<lambda>d. base58_alphabet ! d) (rev ds)) = le58 ds"
proof (induction ds)
  case Nil
  show ?case by (simp add: b58_value_def)
next
  case (Cons d ds)
  then have "b58_value (map (\<lambda>d. base58_alphabet ! d) (rev ds)) = le58 ds" by simp
  moreover have "b58_index (base58_alphabet ! d) = d" using Cons.prems by (simp add: b58_index_nth)
  ultimately show ?case by (simp add: b58_value_def)
qed

lemma takeWhile_ones_digits:
  assumes "digits_ok ds"
  shows "takeWhile (\<lambda>c. c = CHR ''1'') (map (\<lambda>d. base58_alphabet ! d) (rev ds)) = []"
proof (cases ds rule: rev_cases)
  case Nil
  then show ?thesis by simp
next
  case (snoc xs x)
  then have "x \<noteq> 0" and "x < 58" using assms by (auto simp: digits_ok_iff)
  then have "base58_alphabet ! x \<noteq> CHR ''1''" by (simp add: base58_alphabet_one)
  then show ?thesis by (simp add: snoc)
qed

lemma base58_encode_split:
  "base58_encode data =
     replicate (length (takeWhile (\<lambda>b. b = 0) data)) (CHR ''1'') @
     map (\<lambda>d. base58_alphabet ! d) (rev (foldl b58_step [] (drop (length (takeWhile (\<lambda>b. b = 0) data)) data)))"
  by (simp add: base58_encode_def Let_def)

lemma base58_encode_ones:
  "takeWhile (\<lambda>c. c = CHR ''1'') (base58_encode data) =
     replicate (length (takeWhile (\<lambda>b. b = 0) data)) (CHR ''1'')"
proof -
  let ?z = "length (takeWhile (\<lambda>b. b = 0) data)"
  let ?rest = "map (\<lambda>d. base58_alphabet ! d) (rev (foldl b58_step [] (drop ?z data)))"
  have "takeWhile (\<lambda>c. c = CHR ''1'') (replicate ?z (CHR ''1'') @ ?rest) =
      replicate ?z (CHR ''1'') @ takeWhile (\<lambda>c. c = CHR ''1'') ?rest"
    by (rule takeWhile_append2) simp
  also have "takeWhile (\<lambda>c. c = CHR ''1'') ?rest = []"
    by (rule takeWhile_ones_digits) (rule b58_digits_ok)
  finally show ?thesis by (simp add: base58_encode_split)
qed

lemma base58_encode_rest:
  "drop (length (takeWhile (\<lambda>b. b = 0) data)) (base58_encode data) =
     map (\<lambda>d. base58_alphabet ! d)
       (rev (foldl b58_step [] (drop (length (takeWhile (\<lambda>b. b = 0) data)) data)))"
  by (simp add: base58_encode_split)

lemma base58_encode_value:
  "b58_value (drop (length (takeWhile (\<lambda>b. b = 0) data)) (base58_encode data))
     = be256 (drop (length (takeWhile (\<lambda>b. b = 0) data)) data)"
proof -
  let ?z = "length (takeWhile (\<lambda>b. b = 0) data)"
  let ?ds = "foldl b58_step [] (drop ?z data)"
  have ok: "digits_ok ?ds" by (rule b58_digits_ok)
  have "b58_value (map (\<lambda>d. base58_alphabet ! d) (rev ?ds)) = le58 ?ds"
    by (rule b58_value_digits) (use ok in \<open>simp add: digits_ok_iff\<close>)
  then show ?thesis
    by (simp only: base58_encode_rest b58_digits_value)
qed

lemma be256_snoc: "be256 (bs @ [b]) = be256 bs * 256 + unat b"
  by (simp add: be256_def)

lemma be256_pos: "bs \<noteq> [] \<Longrightarrow> hd bs \<noteq> 0 \<Longrightarrow> 0 < be256 bs"
proof (induction bs rule: rev_induct)
  case Nil
  then show ?case by simp
next
  case (snoc b bs)
  show ?case
  proof (cases "bs = []")
    case True
    with snoc.prems have "b \<noteq> 0" by simp
    then have "unat b \<noteq> 0" using unat_gt_0 [of b] by simp
    then show ?thesis by (simp add: be256_snoc)
  next
    case False
    with snoc have "0 < be256 bs" by simp
    then show ?thesis by (simp add: be256_snoc)
  qed
qed

lemma be_bytes_be256: "bs = [] \<or> hd bs \<noteq> 0 \<Longrightarrow> be_bytes (be256 bs) = bs"
proof (induction bs rule: rev_induct)
  case Nil
  show ?case by (subst be_bytes.simps) (simp add: be256_def)
next
  case (snoc b bs)
  have ub: "unat b < 256" using unsigned_less [of b, where ?'a = nat] by simp
  have pos: "0 < be256 (bs @ [b])" by (rule be256_pos) (use snoc.prems in auto)
  have IH: "be_bytes (be256 bs) = bs"
  proof (cases "bs = []")
    case True
    then show ?thesis by (subst be_bytes.simps) (simp add: be256_def)
  next
    case False
    with snoc show ?thesis by simp
  qed
  have "be_bytes (be256 (bs @ [b])) =
      be_bytes (be256 (bs @ [b]) div 256) @ [of_nat (be256 (bs @ [b]) mod 256)]"
    using pos by (subst be_bytes.simps) simp
  also have "be256 (bs @ [b]) div 256 = be256 bs" using ub by (simp add: be256_snoc)
  also have "be256 (bs @ [b]) mod 256 = unat b" using ub by (simp add: be256_snoc)
  finally show ?case by (simp add: IH)
qed

lemma base58_encode_chars: "list_all (\<lambda>c. c \<in> set base58_alphabet) (base58_encode data)"
proof -
  let ?z = "length (takeWhile (\<lambda>b. b = 0) data)"
  let ?ds = "foldl b58_step [] (drop ?z data)"
  have "digits_ok ?ds" by (rule b58_digits_ok)
  then have "\<forall>d \<in> set ?ds. base58_alphabet ! d \<in> set base58_alphabet"
    by (auto simp: digits_ok_iff base58_alphabet_length)
  moreover have "CHR ''1'' \<in> set base58_alphabet" by (simp add: base58_alphabet_def)
  ultimately show ?thesis
    by (auto simp: base58_encode_split list_all_iff)
qed

lemma drop_takeWhile_zero:
  "drop (length (takeWhile (\<lambda>b. b = (0::byte)) data)) data = [] \<or>
   hd (drop (length (takeWhile (\<lambda>b. b = (0::byte)) data)) data) \<noteq> 0"
  by (induction data) auto

lemma takeWhile_zero_replicate:
  "replicate (length (takeWhile (\<lambda>b. b = (0::byte)) data)) 0 @
     drop (length (takeWhile (\<lambda>b. b = 0) data)) data = data"
  by (induction data) auto

lemma base58_decode_encode: "base58_decode (base58_encode data) = Some data"
proof -
  let ?z = "length (takeWhile (\<lambda>b. b = 0) data)"
  have v: "b58_value (drop ?z (base58_encode data)) = be256 (drop ?z data)"
    by (rule base58_encode_value)
  have "base58_decode (base58_encode data) = Some (replicate ?z 0 @ be_bytes (be256 (drop ?z data)))"
    by (simp add: base58_decode_def Let_def base58_encode_chars base58_encode_ones v)
  also have "be_bytes (be256 (drop ?z data)) = drop ?z data"
    by (rule be_bytes_be256) (rule drop_takeWhile_zero)
  finally show ?thesis by (simp add: takeWhile_zero_replicate)
qed


lemma word_bytes_length: "length (word_bytes n w) = n"
  by (simp add: word_bytes_def)

lemma sha256_bytes_length: "length (sha256_bytes lib data) = 32"
  by (simp add: sha256_bytes_def word_bytes_length)

lemma base58check_decode_encode:
  "base58check_decode lib
     (base58_encode (payload @ take 4 (sha256_bytes lib (sha256_bytes lib payload)))) = Some payload"
  by (simp add: base58check_decode_def base58_decode_encode sha256_bytes_length Let_def)

text \<open>
  C7: the output of \<open>base58_encode\<close> starts with exactly as many \<^verbatim>\<open>'1'\<close> characters
  as the input has leading zero bytes, and the characters after them, read as a
  big-endian number in base 58, give the number the remaining bytes are in base 256;
  they are the alphabet's characters of the digits the loop computed, and the first of
  them is not \<^verbatim>\<open>'1'\<close>.
\<close>

theorem base58_encode_leading_zeros:
  "length (takeWhile (\<lambda>c. c = CHR ''1'') (base58_encode data)) = length (takeWhile (\<lambda>b. b = 0) data)
   \<and> take (length (takeWhile (\<lambda>b. b = 0) data)) (base58_encode data)
       = replicate (length (takeWhile (\<lambda>b. b = 0) data)) (CHR ''1'')
   \<and> b58_value (drop (length (takeWhile (\<lambda>b. b = 0) data)) (base58_encode data))
       = be256 (drop (length (takeWhile (\<lambda>b. b = 0) data)) data)
   \<and> list_all (\<lambda>c. c \<in> set base58_alphabet) (base58_encode data)"
proof -
  have "take (length (takeWhile (\<lambda>b. b = 0) data)) (base58_encode data)
       = replicate (length (takeWhile (\<lambda>b. b = 0) data)) (CHR ''1'')"
    by (simp add: base58_encode_split)
  then show ?thesis
    by (simp add: base58_encode_ones base58_encode_value base58_encode_chars)
qed

text \<open>
  C6: for a 32-byte private key, decoding the WIF string of \<open>private_key_to_wif\<close>
  gives back the version byte of the network (\<^verbatim>\<open>0x80\<close> mainnet, \<^verbatim>\<open>0xEF\<close> testnet),
  the key bytes and the compression flag.
\<close>

theorem wif_round_trip:
  assumes "length private_key = 32"
  shows "wif_decode lib (private_key_to_wif lib testnet private_key compr)
           = Some (if testnet then 0xEF else 0x80, private_key, compr)"
proof -
  let ?v = "(if testnet then 0xEF else 0x80) :: byte"
  let ?payload = "[?v] @ private_key @ (if compr then [0x01] else [])"
  have wif: "private_key_to_wif lib testnet private_key compr =
      base58_encode (?payload @ take 4 (sha256_bytes lib (sha256_bytes lib ?payload)))"
    using assms by (simp add: private_key_to_wif_def Let_def)
  have dec: "base58check_decode lib (private_key_to_wif lib testnet private_key compr) = Some ?payload"
    unfolding wif by (rule base58check_decode_encode)
  have "wif_decode lib (private_key_to_wif lib testnet private_key compr) =
      (if length ?payload = 33 then Some (hd ?payload, tl ?payload, False)
       else if length ?payload = 34 \<and> last ?payload = 0x01
       then Some (hd ?payload, butlast (tl ?payload), True)
       else None)"
    by (simp only: wif_decode_def dec option.case)
  also have "\<dots> = Some (?v, private_key, compr)"
    using assms by (cases compr) simp_all
  finally show ?thesis .
qed

theorem wif_round_trip_witness:
  "length (replicate 32 (1::byte)) = 32 \<and>
   wif_decode demo_lib (private_key_to_wif demo_lib False (replicate 32 1) True)
     = Some (0x80, replicate 32 1, True)"
  using wif_round_trip [of "replicate 32 1" demo_lib False True] by simp

theorem base58_encode_leading_zeros_witness:
  "base58_encode [0, 0, 1, 2, 3] = ''11Ldp'' \<and>
   length (takeWhile (\<lambda>c. c = CHR ''1'') (base58_encode [0, 0, 1, 2, 3])) = 2 \<and>
   b58_value (drop 2 (base58_encode [0, 0, 1, 2, 3])) = be256 [1, 2, 3]"
  using base58_encode_leading_zeros [of "[0, 0, 1, 2, 3]"] 
  by (simp add: base58_encode_def b58_step_def base58_alphabet_def b58_push_carry.simps)

section \<open>The container parser and load\<close>

lemma parse_pages_scan:
  "1024 dvd offset \<Longrightarrow>
   parse_pages data offset reg = foldl (scan_pos data) reg [offset ..< scan_limit data]"
proof (induction data offset reg rule: parse_pages.induct)
  case (1 data offset reg)
  show ?case
  proof (cases "offset + 1024 \<le> length data")
    case True
    let ?m = "min (offset + 1024) (length data - 32)"
    let ?reg' = "foldl (scan_pos data) reg [offset ..< ?m]"
    have page: "parse_bdb_page data offset reg = (True, offset + 1024, ?reg')"
      using True by (simp add: parse_bdb_page_def)
    have lt: "offset < length data" using True by simp
    have dvd: "1024 dvd offset + 1024" using "1.prems" by simp
    have rec: "parse_pages data (offset + 1024) ?reg' =
        foldl (scan_pos data) ?reg' [offset + 1024 ..< scan_limit data]"
      by (rule "1.IH" [OF lt page [symmetric] refl refl dvd])
    have le: "offset + 1024 \<le> 1024 * (length data div 1024)"
    proof -
      obtain k where k: "offset = 1024 * k" using "1.prems" by (auto elim: dvdE)
      then have "1024 * (k + 1) \<le> length data" using True by simp
      then have "k + 1 \<le> length data div 1024" by (simp add: less_eq_div_iff_mult_less_eq mult.commute)
      then show ?thesis using k by simp
    qed
    have split: "[offset ..< scan_limit data] = [offset ..< ?m] @ [offset + 1024 ..< scan_limit data]"
    proof (cases "length data - 32 \<le> offset + 1024")
      case True
      then have "scan_limit data = length data - 32" using le by (simp add: scan_limit_def)
      then show ?thesis using True by (simp add: min_def)
    next
      case False
      then have m: "?m = offset + 1024" by simp
      have "offset + 1024 \<le> scan_limit data" using le False by (simp add: scan_limit_def)
      then have "[offset ..< scan_limit data] = [offset ..< offset + 1024] @ [offset + 1024 ..< scan_limit data]"
        by (metis le_add1 upt_add_eq_append le_Suc_ex)
      then show ?thesis by (simp only: m)
    qed
    have "parse_pages data offset reg = parse_pages data (offset + 1024) ?reg'"
      using lt page by (subst parse_pages.simps) simp
    then show ?thesis by (simp only: rec split foldl_append)
  next
    case False
    have stop: "parse_pages data offset reg = reg"
      using False by (subst parse_pages.simps) (simp add: parse_bdb_page_def)
    obtain k where k: "offset = 1024 * k" using "1.prems" by (auto elim: dvdE)
    have "length data div 1024 \<le> k"
    proof (rule ccontr)
      assume "\<not> length data div 1024 \<le> k"
      then have "k + 1 \<le> length data div 1024" by simp
      then have "1024 * (k + 1) \<le> 1024 * (length data div 1024)" by (rule mult_le_mono2)
      also have "\<dots> \<le> length data" by simp
      finally show False using False k by simp
    qed
    then have "scan_limit data \<le> offset" using k by (simp add: scan_limit_def min_def)
    then show ?thesis by (simp add: stop)
  qed
qed

lemma map_put_default: "default_only m \<Longrightarrow> map_put ''default'' v m = [(''default'', v)]"
  by (cases m) (auto simp: default_only_def)

lemma fst_scan_pos:
  "fst (scan_pos data reg i) =
     (if mkey_at data i \<and> i + 68 < length data
      then map_put ''default'' (master_key_from data (i + 4)) (fst reg) else fst reg)"
  by (simp add: scan_pos_def scan_mkey_def scan_ckey_def Let_def)

lemma snd_scan_pos:
  "snd (scan_pos data reg i) =
     (if ckey_at data i \<and> i + 84 < length data
      then map_put (to_string (length (snd reg))) (crypted_key_from data (i + 4)) (snd reg)
      else snd reg)"
  by (simp add: scan_pos_def scan_mkey_def scan_ckey_def Let_def)

lemma fst_foldl_scan:
  "default_only (fst reg) \<Longrightarrow>
   fst (foldl (scan_pos data) reg ps) =
     (case filter (\<lambda>i. mkey_at data i \<and> i + 68 < length data) ps of
        [] \<Rightarrow> fst reg
      | q # qs \<Rightarrow> [(''default'', master_key_from data (last (q # qs) + 4))])"
proof (induction ps rule: rev_induct)
  case Nil
  show ?case by simp
next
  case (snoc p ps)
  let ?P = "\<lambda>i. mkey_at data i \<and> i + 68 < length data"
  have IH: "fst (foldl (scan_pos data) reg ps) =
     (case filter ?P ps of [] \<Rightarrow> fst reg
      | q # qs \<Rightarrow> [(''default'', master_key_from data (last (q # qs) + 4))])"
    by (rule snoc.IH [OF snoc.prems])
  have ok: "default_only (fst (foldl (scan_pos data) reg ps))"
    unfolding IH using snoc.prems by (auto simp: default_only_def split: list.splits)
  show ?case
  proof (cases "?P p")
    case True
    then have "fst (foldl (scan_pos data) reg (ps @ [p])) = [(''default'', master_key_from data (p + 4))]"
      by (simp add: fst_scan_pos map_put_default [OF ok])
    moreover have "filter ?P (ps @ [p]) = filter ?P ps @ [p]" using True by simp
    ultimately show ?thesis by (cases "filter ?P ps") simp_all
  next
    case False
    then have "fst (foldl (scan_pos data) reg (ps @ [p])) = fst (foldl (scan_pos data) reg ps)"
      by (auto simp: fst_scan_pos)
    moreover have "filter ?P (ps @ [p]) = filter ?P ps" using False by simp
    ultimately show ?thesis by (simp only: IH)
  qed
qed

lemma map_put_not_Nil: "map_put k v m \<noteq> []"
  by (cases m) (auto split: if_splits)

lemma snd_foldl_scan_Nil:
  "(snd (foldl (scan_pos data) reg ps) = []) =
     (snd reg = [] \<and> filter (\<lambda>i. ckey_at data i \<and> i + 84 < length data) ps = [])"
proof (induction ps rule: rev_induct)
  case Nil
  show ?case by simp
next
  case (snoc p ps)
  then show ?case by (auto simp: snd_scan_pos map_put_not_Nil)
qed

lemma parse_pages_master_keys:
  "default_only (fst reg) \<Longrightarrow>
   fst (parse_pages data 0 reg) =
     (case mkey_positions data of
        [] \<Rightarrow> fst reg
      | q # qs \<Rightarrow> [(''default'', master_key_from data (last (q # qs) + 4))])"
  by (simp add: parse_pages_scan fst_foldl_scan mkey_positions_def)

lemma parse_pages_crypted_keys_Nil:
  "(snd (parse_pages data 0 reg) = []) = (snd reg = [] \<and> ckey_positions data = [])"
  by (simp add: parse_pages_scan snd_foldl_scan_Nil ckey_positions_def)

lemma filter_upt_two:
  assumes "a < b" "b < n" "P a" "P b" "\<And>i. i < n \<Longrightarrow> P i \<Longrightarrow> i = a \<or> i = b"
  shows "filter P [0 ..< n] = [a, b]"
proof -
  have s: "[0 ..< n] = [0 ..< a] @ [a] @ [Suc a ..< b] @ [b] @ [Suc b ..< n]"
    using assms(1,2)
    by (metis Suc_leI append_Cons append_Nil le_add2 less_imp_le_nat upt_add_eq_append upt_conv_Cons zero_le le_Suc_ex less_or_eq_imp_le order.strict_trans)
  have only: "\<not> P i" if "i < n" "i \<noteq> a" "i \<noteq> b" for i
    using assms(5) [of i] that by blast
  have e1: "filter P [0 ..< a] = []"
  proof -
    have "\<not> P i" if "i < a" for i
      by (rule only) (use that assms(1,2) in auto)
    then show ?thesis by (simp add: filter_empty_conv)
  qed
  have e2: "filter P [Suc a ..< b] = []"
  proof -
    have "\<not> P i" if "Suc a \<le> i" "i < b" for i
      by (rule only) (use that assms(1,2) in auto)
    then show ?thesis by (simp add: filter_empty_conv)
  qed
  have e3: "filter P [Suc b ..< n] = []"
  proof -
    have "\<not> P i" if "Suc b \<le> i" "i < n" for i
      by (rule only) (use that assms(1,2) in auto)
    then show ?thesis by (simp add: filter_empty_conv)
  qed
  show ?thesis unfolding s using e1 e2 e3 assms(3,4) by simp
qed


lemma snd_foldl_scan:
  "snd (foldl (scan_pos data) reg ps) =
     foldl (\<lambda>m i. map_put (to_string (length m)) (crypted_key_from data (i + 4)) m) (snd reg)
       (filter (\<lambda>i. ckey_at data i \<and> i + 84 < length data) ps)"
  by (induction ps rule: rev_induct) (simp_all add: snd_scan_pos)

lemma parse_pages_crypted_keys:
  "snd (parse_pages data 0 reg) =
     foldl (\<lambda>m i. map_put (to_string (length m)) (crypted_key_from data (i + 4)) m) (snd reg)
       (ckey_positions data)"
  by (simp add: parse_pages_scan snd_foldl_scan ckey_positions_def)

lemma filter_upt_one:
  assumes "a < n" "P a" "\<And>i. i < n \<Longrightarrow> P i \<Longrightarrow> i = a"
  shows "filter P [0 ..< n] = [a]"
proof -
  have s: "[0 ..< n] = [0 ..< a] @ [a] @ [Suc a ..< n]"
    using assms(1)
    by (metis Suc_leI append_Cons append_Nil le_add2 less_imp_le_nat upt_add_eq_append upt_conv_Cons zero_le le_Suc_ex)
  have only: "\<not> P i" if "i < n" "i \<noteq> a" for i
    using assms(3) [of i] that by blast
  have e1: "filter P [0 ..< a] = []"
  proof -
    have "\<not> P i" if "i < a" for i
      by (rule only) (use that assms(1) in auto)
    then show ?thesis by (simp add: filter_empty_conv)
  qed
  have e2: "filter P [Suc a ..< n] = []"
  proof -
    have "\<not> P i" if "Suc a \<le> i" "i < n" for i
      by (rule only) (use that assms(1) in auto)
    then show ?thesis by (simp add: filter_empty_conv)
  qed
  show ?thesis unfolding s using e1 e2 assms(2) by simp
qed

lemma magic_ok_demo: "magic_ok ([0x61, 0x15, 0x06, 0x00] @ rest)"
  by (simp add: magic_ok_def read_u32_def)

lemma demo_image_length: "length demo_image = 1024"
  by (simp add: demo_image_def)

lemma demo_image_limit: "scan_limit demo_image = 992"
  by (simp add: scan_limit_def demo_image_length)

lemma demo_image_tail:
  assumes "229 \<le> i" "i < 1024"
  shows "demo_image ! i = 0"
proof -
  define front :: bytes where
    "front = [0x61, 0x15, 0x06, 0x00] @ replicate 12 0 @
       [109, 107, 101, 121] @ replicate 8 9 @ replicate 48 7 @ replicate 4 0 @
       [109, 107, 101, 121] @ [1, 2, 3, 4, 5, 6, 7, 8] @ replicate 32 0 @ replicate 16 0x10 @
       replicate 4 0 @
       [99, 107, 101, 121] @ replicate 33 5 @ replicate 32 0 @ replicate 16 0x10"
  have len: "length front = 229" by (simp add: front_def)
  have eq: "demo_image = front @ replicate 795 0" by (simp add: demo_image_def front_def)
  have l: "i - 229 < 795" using assms by simp
  have "demo_image ! i = (front @ replicate 795 0) ! i" by (simp only: eq)
  also have "\<dots> = replicate 795 0 ! (i - 229)" using assms(1) by (simp add: nth_append len)
  also have "\<dots> = 0" using l by (rule nth_replicate)
  finally show ?thesis .
qed

lemma demo_image_m:
  assumes "demo_image ! i = 109" "i < 992"
  shows "i = 16 \<or> i = 80"
proof (cases "i < 229")
  case True
  with assms(1) show ?thesis
    by (auto simp: demo_image_def nth_append nth_Cons' split: if_splits)
next
  case False
  then have "demo_image ! i = 0" using assms(2) by (simp add: demo_image_tail)
  with assms(1) show ?thesis by simp
qed

lemma demo_image_c:
  assumes "demo_image ! i = 99" "i < 992"
  shows "i = 144"
proof (cases "i < 229")
  case True
  with assms(1) show ?thesis
    by (auto simp: demo_image_def nth_append nth_Cons' split: if_splits)
next
  case False
  then have "demo_image ! i = 0" using assms(2) by (simp add: demo_image_tail)
  with assms(1) show ?thesis by simp
qed

lemma demo_image_mkey_positions: "mkey_positions demo_image = [16, 80]"
  unfolding mkey_positions_def demo_image_limit
proof (rule filter_upt_two)
  show "mkey_at demo_image 16 \<and> 16 + 68 < length demo_image"
    by (simp add: mkey_at_def demo_image_length) (simp add: demo_image_def nth_append)
  show "mkey_at demo_image 80 \<and> 80 + 68 < length demo_image"
    by (simp add: mkey_at_def demo_image_length) (simp add: demo_image_def nth_append)
  show "\<And>i. i < 992 \<Longrightarrow> mkey_at demo_image i \<and> i + 68 < length demo_image \<Longrightarrow> i = 16 \<or> i = 80"
    using demo_image_m by (simp add: mkey_at_def)
qed simp_all

lemma demo_image_ckey_positions: "ckey_positions demo_image = [144]"
  unfolding ckey_positions_def demo_image_limit
proof (rule filter_upt_one)
  show "ckey_at demo_image 144 \<and> 144 + 84 < length demo_image"
    by (simp add: ckey_at_def demo_image_length) (simp add: demo_image_def nth_append)
  show "\<And>i. i < 992 \<Longrightarrow> ckey_at demo_image i \<and> i + 84 < length demo_image \<Longrightarrow> i = 144"
    using demo_image_c by (simp add: ckey_at_def)
qed simp

lemma demo_image_master_key: "master_key_from demo_image 84 = demo_master_key"
  by (simp add: master_key_from_def bytes_range_def demo_image_def demo_master_key_def)

lemma demo_image_crypted_key: "crypted_key_from demo_image 148 = demo_crypted_key"
  by (simp add: crypted_key_from_def bytes_range_def demo_image_def demo_crypted_key_def)

lemma to_string_0: "to_string 0 = ''0''"
  by (subst to_string.simps) (simp add: digit_char_def)

lemma demo_image_parse:
  "parse_pages demo_image 0 ([], []) = ([(''default'', demo_master_key)], [(''0'', demo_crypted_key)])"
proof -
  have "fst (parse_pages demo_image 0 ([], [])) = [(''default'', demo_master_key)]"
    by (simp add: parse_pages_master_keys default_only_def demo_image_mkey_positions
          demo_image_master_key)
  moreover have "snd (parse_pages demo_image 0 ([], [])) = [(''0'', demo_crypted_key)]"
    by (simp add: parse_pages_crypted_keys demo_image_ckey_positions demo_image_crypted_key
          to_string_0)
  ultimately show ?thesis by (simp add: prod_eq_iff)
qed

lemma demo_load: "load (const_fs demo_image) (new_wallet ''wallet.dat'') = (True, demo_wallet)"
proof -
  have ne: "demo_image \<noteq> []" using demo_image_length by auto
  have mg: "magic_ok demo_image" unfolding demo_image_def by (simp only: append.assoc magic_ok_demo)
  show ?thesis
    by (simp add: load_def const_fs_def new_wallet_def ne parse_bdb_file_def mg
        demo_image_length demo_image_parse demo_wallet_def Let_def)
qed

lemma scan_limit_le: "scan_limit data \<le> length data"
  by (simp add: scan_limit_def min_def)

lemma ckey_positions_Nil: "99 \<notin> set data \<Longrightarrow> ckey_positions data = []"
proof -
  assume no: "99 \<notin> set data"
  have "\<not> ckey_at data i" if "i < scan_limit data" for i
  proof -
    have "i < length data" using that scan_limit_le [of data] by simp
    then have "data ! i \<in> set data" by simp
    with no show ?thesis by (auto simp: ckey_at_def)
  qed
  then show ?thesis by (simp add: ckey_positions_def filter_empty_conv)
qed

lemma mkey_positions_mem:
  "i < scan_limit data \<Longrightarrow> mkey_at data i \<Longrightarrow> i + 68 < length data \<Longrightarrow> mkey_positions data \<noteq> []"
  by (auto simp: mkey_positions_def filter_empty_conv)

lemma scan_limit_small: "length data < 1024 \<Longrightarrow> scan_limit data = 0"
  by (simp add: scan_limit_def)

lemma parse_pages_master_keys_Nil:
  "(fst (parse_pages data 0 ([], [])) = []) = (mkey_positions data = [])"
  by (simp add: parse_pages_master_keys default_only_def split: list.splits)

lemma parse_bdb_file_fresh:
  assumes "master_keys w = []" "crypted_keys w = []" "magic_ok (wallet_data w)"
  shows "fst (parse_bdb_file w) =
           (mkey_positions (wallet_data w) \<noteq> [] \<and> ckey_positions (wallet_data w) \<noteq> [])"
    and "(master_keys (snd (parse_bdb_file w)) = []) = (mkey_positions (wallet_data w) = [])"
    and "(crypted_keys (snd (parse_bdb_file w)) = []) = (ckey_positions (wallet_data w) = [])"
proof -
  let ?d = "wallet_data w"
  show "fst (parse_bdb_file w) = (mkey_positions ?d \<noteq> [] \<and> ckey_positions ?d \<noteq> [])"
  proof (cases "length ?d < 16")
    case True
    then show ?thesis by (simp add: parse_bdb_file_def mkey_positions_def scan_limit_small)
  next
    case False
    then show ?thesis
      using assms
      by (simp add: parse_bdb_file_def Let_def parse_pages_master_keys_Nil
          parse_pages_crypted_keys_Nil)
  qed
  show "(master_keys (snd (parse_bdb_file w)) = []) = (mkey_positions ?d = [])"
  proof (cases "length ?d < 16")
    case True
    then show ?thesis
      using assms by (simp add: parse_bdb_file_def set_error_def mkey_positions_def scan_limit_small)
  next
    case False
    then show ?thesis
      using assms by (simp add: parse_bdb_file_def Let_def parse_pages_master_keys_Nil)
  qed
  show "(crypted_keys (snd (parse_bdb_file w)) = []) = (ckey_positions ?d = [])"
  proof (cases "length ?d < 16")
    case True
    then show ?thesis
      using assms by (simp add: parse_bdb_file_def set_error_def ckey_positions_def scan_limit_small)
  next
    case False
    then show ?thesis
      using assms by (simp add: parse_bdb_file_def Let_def parse_pages_crypted_keys_Nil)
  qed
qed

lemma load_fresh:
  assumes "verify_file_access fs file" "read_file fs file = data" "data \<noteq> []"
  shows "load fs (new_wallet file) =
     (case parse_bdb_file ((new_wallet file)\<lparr>wallet_data := data\<rparr>) of
        (False, w2) \<Rightarrow> (False, set_error ''Failed to parse wallet.dat file - invalid format'' w2)
      | (True, w2) \<Rightarrow> (True, w2\<lparr>loaded := True\<rparr>))"
  using assms by (simp add: load_def new_wallet_def Let_def)

text \<open>
  C1 (as amended): for a buffer with a valid magic signature read by a freshly
  constructed handler, \<open>load\<close> succeeds exactly when the registry ends with at least
  one master-key record and at least one encrypted-key record, that is, when the scan
  finds a tag of each kind; it fails when either kind is missing.
\<close>

theorem load_succeeds_iff_both_kinds:
  assumes "verify_file_access fs file" "read_file fs file = data" "magic_ok data"
  shows "fst (load fs (new_wallet file)) =
           (master_keys (snd (load fs (new_wallet file))) \<noteq> [] \<and>
            crypted_keys (snd (load fs (new_wallet file))) \<noteq> [])
         \<and> fst (load fs (new_wallet file)) =
           (mkey_positions data \<noteq> [] \<and> ckey_positions data \<noteq> [])"
proof (cases "data = []")
  case True
  then have "load fs (new_wallet file) =
      (False, set_error ''Failed to read wallet file or file is empty''
                ((new_wallet file)\<lparr>wallet_data := data\<rparr>))"
    using assms by (simp add: load_def new_wallet_def Let_def)
  then show ?thesis
    using True by (simp add: set_error_def new_wallet_def mkey_positions_def scan_limit_small)
next
  case False
  let ?w = "(new_wallet file)\<lparr>wallet_data := data\<rparr>"
  have f: "master_keys ?w = []" "crypted_keys ?w = []" "magic_ok (wallet_data ?w)"
    using assms(3) by (simp_all add: new_wallet_def)
  have d: "wallet_data ?w = data" by simp
  note p = parse_bdb_file_fresh [OF f, unfolded d]
  obtain ok w2 where r: "parse_bdb_file ?w = (ok, w2)" by fastforce
  have l: "load fs (new_wallet file) =
      (if ok then (True, w2\<lparr>loaded := True\<rparr>)
       else (False, set_error ''Failed to parse wallet.dat file - invalid format'' w2))"
    using load_fresh [OF assms(1,2) False] r by (cases ok) simp_all
  show ?thesis
    using p r by (cases ok) (simp_all add: l set_error_def)
qed

lemma mkey_only_image_length: "length mkey_only_image = 1024"
  by (simp add: mkey_only_image_def)

lemma mkey_only_image_magic: "magic_ok mkey_only_image"
  unfolding mkey_only_image_def by (simp only: append.assoc magic_ok_demo)

lemma mkey_only_image_mkey: "mkey_positions mkey_only_image \<noteq> []"
proof (rule mkey_positions_mem)
  show "16 < scan_limit mkey_only_image" by (simp add: scan_limit_def mkey_only_image_length)
  show "mkey_at mkey_only_image 16" by (simp add: mkey_at_def mkey_only_image_def nth_append)
  show "16 + 68 < length mkey_only_image" by (simp add: mkey_only_image_length)
qed

lemma mkey_only_image_ckey: "ckey_positions mkey_only_image = []"
  by (rule ckey_positions_Nil) (simp add: mkey_only_image_def)

text \<open>
  C1 as it is stated fails: the image below has a valid magic number and its parse
  leaves a master-key record in the registry, and \<open>load\<close> fails all the same,
  because no encrypted-key record was found.
\<close>

theorem load_fails_with_master_key_record:
  "magic_ok mkey_only_image \<and>
   fst (load (const_fs mkey_only_image) (new_wallet ''wallet.dat'')) = False \<and>
   master_keys (snd (load (const_fs mkey_only_image) (new_wallet ''wallet.dat''))) \<noteq> []"
proof -
  let ?w = "(new_wallet ''wallet.dat'')\<lparr>wallet_data := mkey_only_image\<rparr>"
  have f: "master_keys ?w = []" "crypted_keys ?w = []" "magic_ok (wallet_data ?w)"
    using mkey_only_image_magic by (simp_all add: new_wallet_def)
  have d: "wallet_data ?w = mkey_only_image" by simp
  note p = parse_bdb_file_fresh [OF f, unfolded d]
  have ne: "mkey_only_image \<noteq> []" using mkey_only_image_length by auto
  obtain ok w2 where r: "parse_bdb_file ?w = (ok, w2)" by fastforce
  have ok: "ok = False" using p(1) r by (simp add: mkey_only_image_ckey)
  have m: "master_keys w2 \<noteq> []" using p(2) r by (simp add: mkey_only_image_mkey)
  have "load (const_fs mkey_only_image) (new_wallet ''wallet.dat'') =
      (False, set_error ''Failed to parse wallet.dat file - invalid format'' w2)"
    using load_fresh [of "const_fs mkey_only_image" "''wallet.dat''" mkey_only_image] ne r ok
    by (simp add: const_fs_def)
  then show ?thesis using m by (simp add: set_error_def mkey_only_image_magic)
qed

theorem load_succeeds_iff_both_kinds_witness:
  "verify_file_access (const_fs demo_image) ''wallet.dat'' \<and>
   read_file (const_fs demo_image) ''wallet.dat'' = demo_image \<and>
   magic_ok demo_image \<and>
   fst (load (const_fs demo_image) (new_wallet ''wallet.dat'')) = True \<and>
   master_keys (snd (load (const_fs demo_image) (new_wallet ''wallet.dat'')))
     = [(''default'', demo_master_key)] \<and>
   crypted_keys (snd (load (const_fs demo_image) (new_wallet ''wallet.dat'')))
     = [(''0'', demo_crypted_key)] \<and>
   mkey_positions demo_image = [16, 80] \<and> ckey_positions demo_image = [144]"
proof -
  have a: "verify_file_access (const_fs demo_image) ''wallet.dat''"
    and b: "read_file (const_fs demo_image) ''wallet.dat'' = demo_image"
    by (simp_all add: const_fs_def)
  have c: "magic_ok demo_image" unfolding demo_image_def by (simp only: append.assoc magic_ok_demo)
  show ?thesis
    using load_succeeds_iff_both_kinds [OF a b c] a b c
    by (simp add: demo_load demo_wallet_def demo_image_mkey_positions demo_image_ckey_positions)
qed

text \<open>
  C4: parsing leaves at most one master-key record, stored under \<^verbatim>\<open>"default"\<close>:
  every tag found overwrites the entry, so the record kept is the one at the last
  master-key tag of the scan (and the registry is unchanged when there is none).
\<close>

theorem master_key_registry_keeps_last:
  assumes "default_only (master_keys w)"
  shows "length (master_keys (snd (parse_bdb_file w))) \<le> 1
         \<and> default_only (master_keys (snd (parse_bdb_file w)))
         \<and> master_keys (snd (parse_bdb_file w)) =
             (if length (wallet_data w) < 16 then master_keys w
              else if magic_ok (wallet_data w) then
                (case mkey_positions (wallet_data w) of
                   [] \<Rightarrow> master_keys w
                 | q # qs \<Rightarrow> [(''default'', master_key_from (wallet_data w) (last (q # qs) + 4))])
              else master_keys w)"
proof -
  let ?r = "master_keys (snd (parse_bdb_file w))"
  have eq: "?r =
     (if length (wallet_data w) < 16 then master_keys w
      else if magic_ok (wallet_data w) then
        (case mkey_positions (wallet_data w) of
           [] \<Rightarrow> master_keys w
         | q # qs \<Rightarrow> [(''default'', master_key_from (wallet_data w) (last (q # qs) + 4))])
      else master_keys w)"
    using assms
    by (simp add: parse_bdb_file_def set_error_def Let_def parse_pages_master_keys
        split: list.splits)
  have ok: "default_only ?r"
    unfolding eq using assms by (auto simp: default_only_def split: list.splits)
  have "length (map fst ?r) \<le> 1" using ok by (auto simp: default_only_def)
  then have "length ?r \<le> 1" by simp
  with ok eq show ?thesis by blast
qed

theorem master_key_registry_keeps_last_witness:
  "default_only (master_keys ((new_wallet ''wallet.dat'')\<lparr>wallet_data := demo_image\<rparr>)) \<and>
   mkey_positions demo_image = [16, 80] \<and>
   master_keys (snd (parse_bdb_file ((new_wallet ''wallet.dat'')\<lparr>wallet_data := demo_image\<rparr>)))
     = [(''default'', demo_master_key)] \<and>
   master_key_from demo_image (80 + 4) = demo_master_key"
proof -
  let ?w = "(new_wallet ''wallet.dat'')\<lparr>wallet_data := demo_image\<rparr>"
  have a: "default_only (master_keys ?w)" by (simp add: new_wallet_def default_only_def)
  have c: "magic_ok demo_image" unfolding demo_image_def by (simp only: append.assoc magic_ok_demo)
  show ?thesis
    using master_key_registry_keeps_last [OF a] a c
    by (simp add: demo_image_length demo_image_mkey_positions demo_image_master_key)
qed

text \<open>
  C8: after a successful \<open>load\<close>, a second call returns \<^verbatim>\<open>true\<close> at once and leaves
  the handler, hence the registry and its record counts, as they are, whatever the
  file now holds.
\<close>

theorem load_idempotent:
  assumes "load fs w = (True, w')"
  shows "load fs' w' = (True, w')
         \<and> master_keys (snd (load fs' w')) = master_keys w'
         \<and> crypted_keys (snd (load fs' w')) = crypted_keys w'
         \<and> length (master_keys (snd (load fs' w'))) = length (master_keys w')
         \<and> length (crypted_keys (snd (load fs' w'))) = length (crypted_keys w')"
proof -
  have "loaded w'"
    using assms by (auto simp: load_def Let_def split: if_splits prod.splits bool.splits)
  then have "load fs' w' = (True, w')" by (simp add: load_def)
  then show ?thesis by simp
qed

theorem load_idempotent_witness:
  "load (const_fs demo_image) (new_wallet ''wallet.dat'') = (True, demo_wallet) \<and>
   load (const_fs mkey_only_image) demo_wallet = (True, demo_wallet) \<and>
   length (master_keys (snd (load (const_fs mkey_only_image) demo_wallet))) = 1 \<and>
   length (crypted_keys (snd (load (const_fs mkey_only_image) demo_wallet))) = 1"
  using load_idempotent [OF demo_load, of "const_fs mkey_only_image"] demo_load
  by (simp add: demo_wallet_def)

section \<open>Decryption\<close>

lemma chop16_Nil: "length bs < 16 \<Longrightarrow> chop16 bs = []"
  by (subst chop16.simps) simp

lemma chop16_Cons: "16 \<le> length bs \<Longrightarrow> chop16 bs = take 16 bs # chop16 (drop 16 bs)"
  by (subst chop16.simps) simp

lemma cbc_decrypt_length: "length (cbc_decrypt d prev cs) = length cs"
  by (induction cs arbitrary: prev) simp_all

lemma whole_blocks_le: "((n::nat) \<le> 16 * (n div 16)) = (n mod 16 = 0)"
  by presburger

lemma take_whole_blocks: "length ct mod 16 = 0 \<Longrightarrow> take (16 * (length ct div 16)) ct = ct"
  by (simp add: whole_blocks_le)

lemma drop_whole_blocks_Nil:
  "(drop (16 * (length ct div 16)) ct = []) = (length ct mod 16 = 0)"
  by (simp add: whole_blocks_le)

lemma all_equal_replicate:
  assumes "length xs = n"
  shows "(xs = replicate n x) = list_all (\<lambda>b. b = x) xs"
proof
  assume "xs = replicate n x"
  then have "set xs \<subseteq> {x}" by (metis set_replicate_conv_if empty_subsetI subset_refl)
  then show "list_all (\<lambda>b. b = x) xs" by (auto simp: list_all_iff)
next
  assume "list_all (\<lambda>b. b = x) xs"
  then have "replicate (length xs) x = xs"
    by (intro replicate_length_same) (simp add: list_all_iff)
  then show "xs = replicate n x" using assms by simp
qed

lemma pkcs7_unpad_append:
  assumes "length fb = 16"
  shows "pkcs7_unpad (A @ fb) =
     (let n = unat (fb ! 15)
      in if n = 0 \<or> n > 16 then None
         else if list_all (\<lambda>b. b = fb ! 15) (drop (16 - n) fb)
         then Some (A @ take (16 - n) fb)
         else None)"
proof -
  let ?p = "A @ fb"
  let ?n = "unat (fb ! 15)"
  have fbne: "fb \<noteq> []" using assms by auto
  have ne: "?p \<noteq> []" using fbne by simp
  have "last ?p = last fb" using fbne by simp
  also have "\<dots> = fb ! (length fb - 1)" using fbne by (rule last_conv_nth)
  finally have lastp: "last ?p = fb ! 15" by (simp add: assms)
  have lenp: "length ?p = length A + 16" by (simp add: assms)
  show ?thesis
  proof (cases "?n = 0 \<or> ?n > 16")
    case True
    then show ?thesis unfolding pkcs7_unpad_def Let_def lastp using fbne by auto
  next
    case False
    then have n: "0 < ?n" "?n \<le> 16" by auto
    have le: "\<not> ?n > length ?p" using n lenp by simp
    have idx: "length ?p - ?n = length A + (16 - ?n)" using n lenp by simp
    have d: "drop (length ?p - ?n) ?p = drop (16 - ?n) fb"
      unfolding idx by simp
    have t: "take (length ?p - ?n) ?p = A @ take (16 - ?n) fb"
      unfolding idx by simp
    have ld: "length (drop (16 - ?n) fb) = ?n" using n assms by simp
    have eq: "(drop (16 - ?n) fb = replicate ?n (fb ! 15)) =
        list_all (\<lambda>b. b = fb ! 15) (drop (16 - ?n) fb)"
      by (rule all_equal_replicate [OF ld])
    have "pkcs7_unpad ?p =
        (if drop (length ?p - ?n) ?p = replicate ?n (fb ! 15)
         then Some (take (length ?p - ?n) ?p) else None)"
      unfolding pkcs7_unpad_def Let_def lastp using fbne False le by simp
    also have "\<dots> =
        (if list_all (\<lambda>b. b = fb ! 15) (drop (16 - ?n) fb)
         then Some (A @ take (16 - ?n) fb) else None)"
      by (simp only: d t eq)
    finally show ?thesis using False by (simp add: Let_def)
  qed
qed

lemma pkcs7_unpad_blocks:
  assumes "ps \<noteq> []"
  shows "pkcs7_unpad (concat (map (word_bytes 16) ps)) =
     (let fb = word_bytes 16 (last ps); n = unat (fb ! 15)
      in if n = 0 \<or> n > 16 then None
         else if list_all (\<lambda>b. b = fb ! 15) (drop (16 - n) fb)
         then Some (concat (map (word_bytes 16) (butlast ps)) @ take (16 - n) fb)
         else None)"
proof -
  have "ps = butlast ps @ [last ps]" using assms by simp
  then have "concat (map (word_bytes 16) ps) =
      concat (map (word_bytes 16) (butlast ps @ [last ps]))" by simp
  then have p: "concat (map (word_bytes 16) ps) =
      concat (map (word_bytes 16) (butlast ps)) @ word_bytes 16 (last ps)" by simp
  show ?thesis
    unfolding p by (simp add: pkcs7_unpad_append word_bytes_length Let_def)
qed

lemma chop16_not_Nil: "16 \<le> length bs \<Longrightarrow> chop16 bs \<noteq> []"
  by (simp add: chop16_Cons)

text \<open>The three calls in a row, as both decryption functions make them.\<close>

lemma evp_decrypt_chain:
  "(case EVP_DecryptUpdate lib (EVP_DecryptInit_ex key ivsrc) ct (int (length ct)) of
      None \<Rightarrow> None
    | Some (ctx', out) \<Rightarrow>
        (case EVP_DecryptFinal_ex ctx' of None \<Rightarrow> None | Some fin \<Rightarrow> Some (out @ fin)))
   = aes_256_cbc_decrypt lib key (take 16 ivsrc) ct"
proof (cases "ct = []")
  case True
  then show ?thesis
    by (simp add: EVP_DecryptUpdate_def EVP_DecryptInit_ex_def EVP_DecryptFinal_ex_def
        aes_256_cbc_decrypt_def)
next
  case False
  then have pos: "\<not> int (length ct) < 0" "int (length ct) \<noteq> 0" by simp_all
  show ?thesis
  proof (cases "length ct mod 16 = 0")
    case m: False
    then have "\<not> length ct \<le> 16 * (length ct div 16)"
      by (simp add: whole_blocks_le)
    then show ?thesis
      using m pos
      by (simp add: EVP_DecryptUpdate_def EVP_DecryptInit_ex_def EVP_DecryptFinal_ex_def
          aes_256_cbc_decrypt_def Let_def)
  next
    case m: True
    let ?cs = "map block_of_bytes (chop16 ct)"
    let ?plain = "cbc_decrypt (AES_256_decrypt lib key) (block_of_bytes (take 16 ivsrc)) ?cs"
    have len: "16 \<le> length ct"
    proof (rule ccontr)
      assume "\<not> 16 \<le> length ct"
      then have "length ct mod 16 = length ct" by simp
      with m False show False by simp
    qed
    have pne: "?plain \<noteq> []"
      using chop16_not_Nil [OF len] cbc_decrypt_length [of _ _ ?cs]
      by (metis length_0_conv map_is_Nil_conv)
    have whole: "take (16 * (length ct div 16)) ct = ct" by (rule take_whole_blocks [OF m])
    have rest: "drop (16 * (length ct div 16)) ct = []" using m by (simp add: whole_blocks_le)
    have upd: "EVP_DecryptUpdate lib (EVP_DecryptInit_ex key ivsrc) ct (int (length ct)) =
        Some ((EVP_DecryptInit_ex key ivsrc)
                \<lparr>ctx_iv := last (block_of_bytes (take 16 ivsrc) # ?cs), ctx_buf := [],
                 ctx_final := last ?plain, ctx_final_used := True\<rparr>,
              concat (map (word_bytes 16) (butlast ?plain)))"
      using pos m
      by (simp add: EVP_DecryptUpdate_def Let_def whole_blocks_le EVP_DecryptInit_ex_def)
    have "aes_256_cbc_decrypt lib key (take 16 ivsrc) ct =
        pkcs7_unpad (concat (map (word_bytes 16) ?plain))"
      using False m by (simp add: aes_256_cbc_decrypt_def)
    also have "\<dots> =
       (let fb = word_bytes 16 (last ?plain); n = unat (fb ! 15)
        in if n = 0 \<or> n > 16 then None
           else if list_all (\<lambda>b. b = fb ! 15) (drop (16 - n) fb)
           then Some (concat (map (word_bytes 16) (butlast ?plain)) @ take (16 - n) fb)
           else None)"
      by (rule pkcs7_unpad_blocks [OF pne])
    finally show ?thesis
      by (simp add: upd EVP_DecryptFinal_ex_def Let_def)
  qed
qed

lemma evp_update_negative: "inl < 0 \<Longrightarrow> EVP_DecryptUpdate lib ctx inp inl = None"
  by (simp add: EVP_DecryptUpdate_def)

lemma aes_256_cbc_decrypt_Nil: "aes_256_cbc_decrypt lib key iv [] = None"
  by (simp add: aes_256_cbc_decrypt_def)


lemma decrypt_blob:
  "(case EVP_DecryptUpdate lib (EVP_DecryptInit_ex key blob) (drop 16 blob)
           (int (length blob) - 16) of
      None \<Rightarrow> None
    | Some (ctx', out) \<Rightarrow>
        (case EVP_DecryptFinal_ex ctx' of None \<Rightarrow> None | Some fin \<Rightarrow> Some (out @ fin)))
   = aes_256_cbc_decrypt lib key (take 16 blob) (drop 16 blob)"
proof (cases "length blob < 16")
  case True
  then show ?thesis by (simp add: evp_update_negative aes_256_cbc_decrypt_Nil)
next
  case False
  then have "int (length blob) - 16 = int (length (drop 16 blob))" by simp
  then show ?thesis by (simp only: evp_decrypt_chain)
qed



section \<open>Password test and key extraction\<close>

lemma first_master_key_iff:
  "(first_master_key lib password ms \<noteq> None) =
     (\<exists>km \<in> set ms. decrypt_master_key lib password (snd km) \<noteq> None)"
  by (induction ms) (auto split: option.splits)

text \<open>
  C2: on a loaded handler \<open>test_password\<close> returns \<^verbatim>\<open>true\<close> exactly when
  \<open>decrypt_master_key\<close> succeeds for some master-key record of the registry. Its
  result is a boolean in every case; a password that decrypts nothing gives
  \<^verbatim>\<open>false\<close> and leaves the handler as it is (the error text is set only when the
  registry has no master key at all).
\<close>

theorem test_password_iff_some_master_key_decrypts:
  assumes "loaded w"
  shows "fst (test_password fs lib password w) =
           (\<exists>km \<in> set (master_keys w). decrypt_master_key lib password (snd km) \<noteq> None)
         \<and> snd (test_password fs lib password w) =
           (if master_keys w = [] then set_error ''No master keys found in wallet'' w else w)"
proof (cases "master_keys w = []")
  case True
  then show ?thesis using assms by (simp add: test_password_def)
next
  case False
  then have "test_password fs lib password w =
      (first_master_key lib password (master_keys w) \<noteq> None, w)"
    using assms by (simp add: test_password_def)
  then show ?thesis
    using False first_master_key_iff [of lib password "master_keys w"] by simp
qed

theorem test_password_iff_some_master_key_decrypts_witness:
  "loaded demo_wallet \<and>
   test_password (const_fs []) demo_lib ''correct'' demo_wallet = (True, demo_wallet) \<and>
   test_password (const_fs []) demo_lib ''wrong'' demo_wallet = (False, demo_wallet) \<and>
   decrypt_master_key demo_lib ''correct'' demo_master_key = Some (replicate 16 0) \<and>
   decrypt_master_key demo_lib ''wrong'' demo_master_key = None"
proof -
  have l: "loaded demo_wallet" by (simp add: demo_wallet_def)
  have m: "master_keys demo_wallet = [(''default'', demo_master_key)]"
    by (simp add: demo_wallet_def)
  have a: "decrypt_master_key demo_lib ''correct'' demo_master_key = Some (replicate 16 0)"
    by code_simp
  have b: "decrypt_master_key demo_lib ''wrong'' demo_master_key = None"
    by code_simp
  show ?thesis
    using test_password_iff_some_master_key_decrypts [OF l, of "const_fs []" demo_lib "''correct''"]
      test_password_iff_some_master_key_decrypts [OF l, of "const_fs []" demo_lib "''wrong''"]
      l a b
    by (simp add: m prod_eq_iff)
qed

lemma extract_loop_concat:
  "extract_loop lib w master_key cks acc =
     acc @ concat (map (\<lambda>kc. key_entries lib w master_key (snd kc)) cks)"
  by (induction cks arbitrary: acc) auto

lemma key_entries_not_Nil:
  "decrypt_private_key lib master_key ck \<noteq> None \<Longrightarrow> key_entries lib w master_key ck \<noteq> []"
  by (auto simp: key_entries_def Let_def split: if_splits)

lemma decrypt_private_key_spec:
  "decrypt_private_key lib master_key ck =
     (if length master_key \<noteq> 32 \<or> length (encrypted_private_key ck) < 16 then None
      else aes_256_cbc_decrypt lib master_key (take 16 (encrypted_private_key ck))
             (drop 16 (encrypted_private_key ck)))"
  by (simp add: decrypt_private_key_def Let_def decrypt_blob)

text \<open>
  C5: an encrypted-key record whose blob is shorter than 16 bytes, or any record when
  the master key is not 32 bytes long, is not decrypted and appends no entry; the
  loop goes on, and its output is what it is without that record.
\<close>

theorem short_record_is_skipped:
  assumes "length (encrypted_private_key ck) < 16 \<or> length master_key \<noteq> 32"
  shows "decrypt_private_key lib master_key ck = None
         \<and> key_entries lib w master_key ck = []
         \<and> extract_loop lib w master_key (before @ (k, ck) # after) acc =
             extract_loop lib w master_key (before @ after) acc"
proof -
  have d: "decrypt_private_key lib master_key ck = None"
    using assms by (auto simp: decrypt_private_key_def)
  then have e: "key_entries lib w master_key ck = []"
    by (simp add: key_entries_def)
  show ?thesis using d e by (simp add: extract_loop_concat)
qed

theorem short_record_is_skipped_witness:
  "length (encrypted_private_key demo_short_record) < 16 \<and>
   decrypt_private_key demo_lib (replicate 32 0) demo_short_record = None \<and>
   decrypt_private_key demo_lib (replicate 32 0) demo_key_record = Some (replicate 32 0) \<and>
   key_entries demo_lib demo_wallet (replicate 32 0) demo_short_record = [] \<and>
   key_entries demo_lib demo_wallet (replicate 32 0) demo_key_record \<noteq> [] \<and>
   extract_loop demo_lib demo_wallet (replicate 32 0)
     [(''0'', demo_key_record), (''1'', demo_short_record), (''2'', demo_key_record)] []
   = extract_loop demo_lib demo_wallet (replicate 32 0)
     [(''0'', demo_key_record), (''2'', demo_key_record)] []"
proof -
  have h: "length (encrypted_private_key demo_short_record) < 16"
    by (simp add: demo_short_record_def)
  have g: "decrypt_private_key demo_lib (replicate 32 0) demo_key_record = Some (replicate 32 0)"
    by code_simp
  have n: "key_entries demo_lib demo_wallet (replicate 32 0) demo_key_record \<noteq> []"
    by (rule key_entries_not_Nil) (simp add: g)
  show ?thesis
    using short_record_is_skipped [of demo_short_record "replicate 32 0" demo_lib demo_wallet
        "[(''0'', demo_key_record)]" "''1''" "[(''2'', demo_key_record)]" "[]"] h g n
    by simp
qed

section \<open>Balance verification: properties\<close>


















section \<open>Further facts about the embedding\<close>

text \<open>The reads of the scan are in range, and a stored record has the full field lengths.\<close>

lemma scan_reads_in_range: "i < scan_limit data \<Longrightarrow> i + 3 < length data"
  by (auto simp: scan_limit_def min_def split: if_splits)

lemma master_key_from_lengths:
  assumes "key_start + 64 < length data"
  shows "length (salt (master_key_from data key_start)) = 8"
    and "length (encrypted_key (master_key_from data key_start)) = 48"
  using assms by (simp_all add: master_key_from_def bytes_range_def)

lemma crypted_key_from_lengths:
  assumes "key_start + 80 < length data"
  shows "length (public_key (crypted_key_from data key_start)) = 33"
    and "length (encrypted_private_key (crypted_key_from data key_start)) = 48"
  using assms by (simp_all add: crypted_key_from_def bytes_range_def)

text \<open>The carry of the digit loop never exceeds 255, so no intermediate value exceeds 14847.\<close>

lemma b58_mul_add_carry:
  "carry \<le> 255 \<Longrightarrow> list_all (\<lambda>d. d < 58) ds \<Longrightarrow> snd (b58_mul_add carry ds) \<le> 255"
proof (induction ds arbitrary: carry)
  case Nil
  then show ?case by simp
next
  case (Cons d ds)
  then have "d \<le> 57" by simp
  then have "carry + d * 256 \<le> 255 + 57 * 256" using Cons.prems(1) by (intro add_mono mult_le_mono1)
  then have "(carry + d * 256) div 58 \<le> 255" by simp
  then have "snd (b58_mul_add ((carry + d * 256) div 58) ds) \<le> 255"
    using Cons.prems(2) by (intro Cons.IH) simp_all
  then show ?case by (auto simp: Let_def split: prod.splits)
qed

text \<open>
  Padding removal takes at least one byte away. The parser stores master-key blobs of
  48 bytes, that is 32 bytes of ciphertext: a master key decrypted from such a blob
  has at most 31 bytes.
\<close>

lemma pkcs7_unpad_shorter: "pkcs7_unpad p = Some q \<Longrightarrow> length q < length p"
  by (auto simp: pkcs7_unpad_def Let_def split: if_splits)

lemma concat_word_bytes_length:
  "length (concat (map (word_bytes 16) ps)) = 16 * length ps"
  by (induction ps) (simp_all add: word_bytes_length)

lemma chop16_length: "length (chop16 bs) = length bs div 16"
proof (induction bs rule: chop16.induct)
  case (1 bs)
  show ?case
  proof (cases "length bs < 16")
    case True
    then show ?thesis by (simp add: chop16_Nil)
  next
    case False
    then have "length (chop16 (drop 16 bs)) = (length bs - 16) div 16" using 1 by simp
    then show ?thesis using False by (simp add: chop16_Cons le_div_geq)
  qed
qed

lemma aes_256_cbc_decrypt_shorter:
  assumes "aes_256_cbc_decrypt lib key iv ct = Some q"
  shows "length q < length ct"
proof -
  let ?p = "concat (map (word_bytes 16)
      (cbc_decrypt (AES_256_decrypt lib key) (block_of_bytes iv) (map block_of_bytes (chop16 ct))))"
  have m: "length ct mod 16 = 0" and u: "pkcs7_unpad ?p = Some q"
    using assms by (auto simp: aes_256_cbc_decrypt_def split: if_splits)
  have "length ?p = 16 * (length ct div 16)"
    by (simp add: concat_word_bytes_length cbc_decrypt_length chop16_length)
  then have "length ?p = length ct" using m by (simp add: whole_blocks_le [symmetric])
  with pkcs7_unpad_shorter [OF u] show ?thesis by simp
qed

lemma parsed_master_key_is_short:
  assumes "length (encrypted_key mk) = 48" "decrypt_master_key lib password mk = Some key"
  shows "length key < 32"
proof -
  have "aes_256_cbc_decrypt lib (derive_key lib password (salt mk) (derive_iterations mk))
      (take 16 (encrypted_key mk)) (drop 16 (encrypted_key mk)) = Some key"
    using assms(2) by (auto simp: decrypt_master_key_def Let_def decrypt_blob split: if_splits)
  from aes_256_cbc_decrypt_shorter [OF this] show ?thesis using assms(1) by simp
qed

text \<open>On a loaded handler the extraction is the loop under the first master key that decrypts.\<close>

lemma extract_private_keys_loaded:
  assumes "loaded w"
  shows "extract_private_keys fs lib password w =
     (case first_master_key lib password (master_keys w) of
        None \<Rightarrow> ([], set_error ''Failed to decrypt master key with provided password'' w)
      | Some master_key \<Rightarrow>
          (concat (map (\<lambda>kc. key_entries lib w master_key (snd kc)) (crypted_keys w)), w))"
  using assms by (simp add: extract_private_keys_def extract_loop_concat split: option.splits)

text \<open>
  Hence the handler never extracts a key from a container it has parsed itself: the
  only master key of the registry has a 48-byte blob, what it decrypts to is shorter
  than 32 bytes, and \<open>decrypt_private_key\<close> refuses such a master key for every
  record.
\<close>

lemma parsed_master_keys_48:
  assumes "master_keys w = []"
  shows "list_all (\<lambda>km. length (encrypted_key (snd km)) = 48) (master_keys (snd (parse_bdb_file w)))"
proof (cases "mkey_positions (wallet_data w)")
  case Nil
  then show ?thesis
    using assms
    by (simp add: parse_bdb_file_def set_error_def Let_def parse_pages_master_keys default_only_def)
next
  case (Cons q qs)
  let ?p = "last (q # qs)"
  have "?p \<in> set (mkey_positions (wallet_data w))" unfolding Cons by (rule last_in_set) simp
  then have "?p + 4 + 64 < length (wallet_data w)" by (simp add: mkey_positions_def)
  then have "length (encrypted_key (master_key_from (wallet_data w) (?p + 4))) = 48"
    by (rule master_key_from_lengths)
  then show ?thesis
    using assms Cons
    by (simp add: parse_bdb_file_def set_error_def Let_def parse_pages_master_keys default_only_def)
qed

lemma load_fresh_master_keys_48:
  assumes "load fs (new_wallet file) = (True, w)"
  shows "list_all (\<lambda>km. length (encrypted_key (snd km)) = 48) (master_keys w)"
proof -
  let ?w1 = "(new_wallet file)\<lparr>wallet_data := read_file fs file\<rparr>"
  have e: "master_keys ?w1 = []" by (simp add: new_wallet_def)
  obtain ok w2 where r: "parse_bdb_file ?w1 = (ok, w2)" by fastforce
  have "w = w2\<lparr>loaded := True\<rparr>"
    using assms r
    by (auto simp: load_def new_wallet_def Let_def split: if_splits bool.splits)
  moreover have "list_all (\<lambda>km. length (encrypted_key (snd km)) = 48) (master_keys w2)"
    using parsed_master_keys_48 [OF e] r by simp
  ultimately show ?thesis by simp
qed

lemma first_master_key_short:
  assumes "list_all (\<lambda>km. length (encrypted_key (snd km)) = 48) ms"
    and "first_master_key lib password ms = Some key"
  shows "length key < 32"
  using assms
proof (induction ms)
  case Nil
  then show ?case by simp
next
  case (Cons km ms)
  obtain k mk where km: "km = (k, mk)" by fastforce
  show ?case
  proof (cases "decrypt_master_key lib password mk")
    case None
    then show ?thesis using Cons km by simp
  next
    case (Some key')
    then have "key' = key" using Cons.prems(2) km by simp
    moreover have "length (encrypted_key mk) = 48" using Cons.prems(1) km by simp
    ultimately show ?thesis using parsed_master_key_is_short Some by blast
  qed
qed

lemma fresh_wallet_extracts_nothing:
  assumes "load fs (new_wallet file) = (True, w)"
  shows "fst (extract_private_keys fs' lib password w) = []"
proof -
  have l: "loaded w"
    using assms by (auto simp: load_def new_wallet_def Let_def split: if_splits prod.splits bool.splits)
  show ?thesis
  proof (cases "first_master_key lib password (master_keys w)")
    case None
    then show ?thesis by (simp add: extract_private_keys_loaded [OF l])
  next
    case (Some key)
    have "length key < 32"
      by (rule first_master_key_short [OF load_fresh_master_keys_48 [OF assms] Some])
    then have "key_entries lib w key ck = []" for ck
      by (simp add: key_entries_def decrypt_private_key_def)
    then show ?thesis by (simp add: extract_private_keys_loaded [OF l] Some)
  qed
qed

end
